theory Spec2Isabelle
  imports Main
begin

text \<open>
  The plugin \<open>serverless-plugin-parent\<close> (\<open>src/index.js\<close>) finds the \<open>serverless.yml\<close> of
  a parent directory and deep-merges it into the configuration of the service at hand.
  This theory embeds its three operations, \<open>getParentConfigurationRelativePath\<close>,
  \<open>mergeParentConfigurationIntoService\<close> and \<open>printEffectiveConfig\<close>, together with the
  library functions they rest on (lodash's \<open>_.merge\<close>, Node's \<open>path.join\<close>), and proves
  what the specification says about them.
\<close>

section \<open>Configuration documents\<close>

text \<open>
  A configuration document is what the YAML loader hands to the plugin: scalars,
  sequences and mappings. It is a tree: no two places of a document share one object
  (YAML aliases are not modelled), so merging in place and merging into a copy give the
  same document. A mapping keeps its keys in insertion order, so it is an
  association list. A JavaScript array is an object too: lodash can hang named
  properties on it (when a mapping is merged into an existing sequence), so a
  sequence carries its elements and its named properties; a sequence read from a
  file has none. \<open>undefined\<close> is the absence of a value: \<open>None\<close> of an option.

  Numbers are integers (the values \<open>maxLevels\<close> is meant to take). Property names that
  JavaScript treats specially on arrays (\<open>length\<close>, index-like names) are kept as
  ordinary named properties.
\<close>

datatype jsval =
    JNull
  | JBool bool
  | JNum int
  | JStr string
  | JArr "jsval list" "(string \<times> jsval) list"
  | JObj "(string \<times> jsval) list"

type_synonym jsobj = "(string \<times> jsval) list"

text \<open>\<open>if (v)\<close>: \<open>undefined\<close>, \<open>null\<close>, \<open>false\<close>, \<open>0\<close> and the empty string are falsy.\<close>

fun truthy :: "jsval option \<Rightarrow> bool" where
  "truthy None = False"
| "truthy (Some JNull) = False"
| "truthy (Some (JBool b)) = b"
| "truthy (Some (JNum n)) = (n \<noteq> 0)"
| "truthy (Some (JStr s)) = (s \<noteq> [])"
| "truthy (Some (JArr xs ps)) = True"
| "truthy (Some (JObj kvs)) = True"

text \<open>\<open>object[key] = value\<close>: an existing key keeps its place, a new key goes last.\<close>

fun assignValue :: "string \<Rightarrow> jsval \<Rightarrow> jsobj \<Rightarrow> jsobj" where
  "assignValue k v [] = [(k, v)]"
| "assignValue k v ((k', v') # kvs) =
     (if k' = k then (k, v) # kvs else (k', v') # assignValue k v kvs)"

section \<open>lodash \<open>_.merge\<close>\<close>

text \<open>
  \<open>baseMerge\<close> walks the keys of the source. A source value that is a sequence or a
  mapping is merged recursively (\<open>baseMergeDeep\<close>) into the destination's value when
  that is an object of a fitting kind, and into a fresh \<open>[]\<close> or \<open>{}\<close> otherwise; any
  other source value is assigned. Sequences are walked by index. A mapping merged into
  an existing sequence leaves its keys as named properties of that sequence. (A mapping
  with a numeric \<open>length\<close>, which lodash would copy as an array-like object, is taken as
  any other mapping; values that are neither scalars, sequences nor plain mappings, such
  as dates, are not modelled.)
  \<open>merge_val d s\<close> is the value the destination holds under a key afterwards, \<open>d\<close> being
  what it held before and \<open>s\<close> the source's value.
\<close>

fun merge_val :: "jsval option \<Rightarrow> jsval \<Rightarrow> jsval"
  and merge_arr :: "jsval list \<Rightarrow> jsval list \<Rightarrow> jsval list"
  and merge_obj :: "jsobj \<Rightarrow> jsobj \<Rightarrow> jsobj" where
  "merge_val d JNull = JNull"
| "merge_val d (JBool b) = JBool b"
| "merge_val d (JNum n) = JNum n"
| "merge_val d (JStr s) = JStr s"
| "merge_val d (JArr ys ps) =
     (case d of
        Some (JArr xs qs) \<Rightarrow> JArr (merge_arr xs ys) (merge_obj qs ps)
      | _ \<Rightarrow> JArr (merge_arr [] ys) (merge_obj [] ps))"
| "merge_val d (JObj kvs) =
     (case d of
        Some (JObj qs) \<Rightarrow> JObj (merge_obj qs kvs)
      | Some (JArr xs qs) \<Rightarrow> JArr xs (merge_obj qs kvs)
      | _ \<Rightarrow> JObj (merge_obj [] kvs))"
| "merge_arr xs [] = xs"
| "merge_arr [] (y # ys) = merge_val None y # merge_arr [] ys"
| "merge_arr (x # xs) (y # ys) = merge_val (Some x) y # merge_arr xs ys"
| "merge_obj qs [] = qs"
| "merge_obj qs ((k, v) # kvs) =
     merge_obj (assignValue k (merge_val (map_of qs k) v) qs) kvs"


text \<open>
  \<open>String(i)\<close> for an index, and the own enumerable keys and values that \<open>keysIn\<close>
  yields for a source: the entries of a mapping, the indices of a sequence followed by
  its named properties, the indices of a string; nothing for a number or a boolean.
\<close>

fun string_of_nat :: "nat \<Rightarrow> string" where
  "string_of_nat n =
     (if n < 10 then [char_of (48 + n)]
      else string_of_nat (n div 10) @ [char_of (48 + n mod 10)])"

definition index_entries :: "jsval list \<Rightarrow> jsobj" where
  "index_entries xs = zip (map string_of_nat [0..<length xs]) xs"

fun source_entries :: "jsval \<Rightarrow> jsobj" where
  "source_entries (JObj kvs) = kvs"
| "source_entries (JArr xs ps) = index_entries xs @ ps"
| "source_entries (JStr s) = index_entries (map (\<lambda>c. JStr [c]) s)"
| "source_entries v = []"

text \<open>
  \<open>_.merge(object, source)\<close> with an object as destination: a falsy source is skipped
  (\<open>createAssigner\<close>), otherwise the destination, mutated, is the result.
\<close>

definition lodash_merge :: "jsobj \<Rightarrow> jsval \<Rightarrow> jsobj" where
  "lodash_merge object source =
     (if truthy (Some source) then merge_obj object (source_entries source) else object)"

section \<open>Node's \<open>path.join\<close> (POSIX)\<close>

fun split_sep :: "string \<Rightarrow> string list" where
  "split_sep [] = [[]]"
| "split_sep (c # cs) =
     (if c = CHR ''/'' then [] # split_sep cs
      else (case split_sep cs of [] \<Rightarrow> [[c]] | s # ss \<Rightarrow> (c # s) # ss))"

fun join_sep :: "string list \<Rightarrow> string" where
  "join_sep [] = []"
| "join_sep [s] = s"
| "join_sep (s # t # ss) = s @ ''/'' @ join_sep (t # ss)"

text \<open>
  \<open>normalizeString\<close>, segment by segment; the segments kept so far are held last first.
  An empty segment and \<open>.\<close> are dropped; \<open>..\<close> removes the segment before it, unless
  there is none or it is \<open>..\<close> itself, where \<open>..\<close> is kept if the path is relative.
\<close>

fun normalizeString :: "bool \<Rightarrow> string list \<Rightarrow> string list \<Rightarrow> string list" where
  "normalizeString allowAboveRoot res [] = rev res"
| "normalizeString allowAboveRoot res (seg # segs) =
     (if seg = [] \<or> seg = ''.'' then normalizeString allowAboveRoot res segs
      else if seg = ''..'' then
        (case res of
           [] \<Rightarrow> normalizeString allowAboveRoot (if allowAboveRoot then [''..''] else []) segs
         | lastSegment # below \<Rightarrow>
             if lastSegment = ''..''
             then normalizeString allowAboveRoot (if allowAboveRoot then ''..'' # res else res) segs
             else normalizeString allowAboveRoot below segs)
      else normalizeString allowAboveRoot (seg # res) segs)"

definition normalize :: "string \<Rightarrow> string" where
  "normalize path =
     (if path = [] then ''.''
      else
        let isAbsolute = (hd path = CHR ''/'');
            trailingSeparator = (last path = CHR ''/'');
            p = join_sep (normalizeString (\<not> isAbsolute) [] (split_sep path))
        in if p = [] then (if isAbsolute then ''/'' else if trailingSeparator then ''./'' else ''.'')
           else (if isAbsolute then ''/'' else []) @ p @ (if trailingSeparator then ''/'' else []))"

definition path_join :: "string \<Rightarrow> string \<Rightarrow> string" where
  "path_join a b =
     (if a = [] \<and> b = [] then ''.''
      else if a = [] then normalize b
      else if b = [] then normalize a
      else normalize (a @ ''/'' @ b))"

text \<open>\<open>String.prototype.indexOf\<close>: the first position of the pattern, or \<open>-1\<close>.\<close>

fun indexOf_from :: "nat \<Rightarrow> string \<Rightarrow> string \<Rightarrow> int" where
  "indexOf_from i pat [] = (if pat = [] then int i else - 1)"
| "indexOf_from i pat (c # cs) =
     (if take (length pat) (c # cs) = pat then int i else indexOf_from (Suc i) pat cs)"

definition indexOf :: "string \<Rightarrow> string \<Rightarrow> int" where
  "indexOf s pat = indexOf_from 0 pat s"

section \<open>The plugin's surroundings\<close>

text \<open>
  The file system, the home directory, the host's document loader and the YAML
  printer are not part of the plugin: they are parameters. \<open>realpathSync\<close> and
  \<open>readFileSync\<close> throw where they give \<open>None\<close>. \<open>toNumber\<close> is JavaScript's numeric
  coercion of a string or an object (\<open>None\<close> is \<open>NaN\<close>).
\<close>

record environment =
  existsSync :: "string \<Rightarrow> bool"
  realpathSync :: "string \<Rightarrow> string option"
  homedir :: string
  readFileSync :: "jsval \<Rightarrow> jsval option"
  toNumber :: "jsval \<Rightarrow> int option"
  yamlDump :: "jsval \<Rightarrow> string"

datatype error = DiscoveryError | LoadError | TypeError | RealpathError

text \<open>
  \<open>v.name\<close> on a value that is not \<open>null\<close> or \<open>undefined\<close>, for the option names read
  here: an own property of a mapping or of a sequence, \<open>undefined\<close> on a scalar.
\<close>

fun get_prop :: "jsval \<Rightarrow> string \<Rightarrow> jsval option" where
  "get_prop (JObj kvs) name = map_of kvs name"
| "get_prop (JArr xs ps) name = map_of ps name"
| "get_prop v name = None"

text \<open>The value of \<open>service.custom && service.custom.parent && service.custom.parent.name\<close>.\<close>

definition parentOption :: "jsobj \<Rightarrow> string \<Rightarrow> jsval option" where
  "parentOption service name =
     (case map_of service ''custom'' of
        None \<Rightarrow> None
      | Some custom \<Rightarrow>
          if \<not> truthy (Some custom) then Some custom
          else (case get_prop custom ''parent'' of
                  None \<Rightarrow> None
                | Some parent \<Rightarrow>
                    if \<not> truthy (Some parent) then Some parent
                    else get_prop parent name))"

section \<open>Locating the parent document\<close>

text \<open>
  The branch of \<open>getParentConfigurationRelativePath\<close> taken when
  \<open>custom.parent.path\<close> is truthy. A string is searched for \<open>.yml\<close> and joined with the
  file name when it is not found anywhere in it. On any other truthy value the call of
  \<open>indexOf\<close> or of \<open>path.join\<close> throws a TypeError, except on a sequence that has the
  string \<open>.yml\<close> among its elements, which is returned as it is.
\<close>

fun explicitPath :: "jsval \<Rightarrow> error + jsval" where
  "explicitPath (JStr s) =
     (if indexOf s ''.yml'' < 0 then Inr (JStr (path_join s ''serverless.yml''))
      else Inr (JStr s))"
| "explicitPath (JArr xs ps) =
     (if map_of ps ''indexOf'' = None \<and> JStr ''.yml'' \<in> set xs then Inr (JArr xs ps)
      else Inl TypeError)"
| "explicitPath v = Inl TypeError"

text \<open>\<open>(maxLevelsToSearch - 1) * 3\<close>; \<open>None\<close> is \<open>NaN\<close>, below which no length is.\<close>

fun numberOf :: "environment \<Rightarrow> jsval \<Rightarrow> int option" where
  "numberOf env (JNum n) = Some n"
| "numberOf env (JBool b) = Some (if b then 1 else 0)"
| "numberOf env JNull = Some 0"
| "numberOf env v = toNumber env v"

definition levelBound :: "environment \<Rightarrow> jsval \<Rightarrow> int option" where
  "levelBound env maxLevelsToSearch =
     (case numberOf env maxLevelsToSearch of None \<Rightarrow> None | Some n \<Rightarrow> Some ((n - 1) * 3))"

fun belowBound :: "nat \<Rightarrow> int option \<Rightarrow> bool" where
  "belowBound len None = False"
| "belowBound len (Some b) = (int len < b)"

text \<open>
  The \<open>while\<close> loop. Its condition is evaluated left to right and stops at the first
  conjunct that fails. \<open>visited\<close> collects the candidate directories whose
  \<open>serverless.yml\<close> has been looked for, in order. The loop is written for any starting
  path, and from an absolute one it need not end, so it is a partial function.
\<close>

partial_function (option) searchLoop ::
  "environment \<Rightarrow> int option \<Rightarrow> string \<Rightarrow> string list \<Rightarrow> ((error + string) \<times> string list) option"
where
  "searchLoop env bound relativePath visited =
     (if existsSync env (path_join relativePath ''serverless.yml'')
      then Some (Inr relativePath, visited @ [relativePath])
      else (case realpathSync env relativePath of
              None \<Rightarrow> Some (Inl RealpathError, visited @ [relativePath])
            | Some real \<Rightarrow>
                if real \<noteq> homedir env \<and> belowBound (length relativePath) bound
                then searchLoop env bound (path_join relativePath ''..'') (visited @ [relativePath])
                else Some (Inr relativePath, visited @ [relativePath])))"

text \<open>\<open>(custom && custom.parent && custom.parent.maxLevels) || 3\<close>.\<close>

definition maxLevelsToSearch :: "jsobj \<Rightarrow> jsval" where
  "maxLevelsToSearch service =
     (case parentOption service ''maxLevels'' of
        None \<Rightarrow> JNum 3
      | Some m \<Rightarrow> if truthy (Some m) then m else JNum 3)"

text \<open>Lines 156 to 176: the loop from \<open>..\<close>, then the check of the directory it stopped at.\<close>

definition discoverParent ::
  "environment \<Rightarrow> jsobj \<Rightarrow> ((error + jsval) \<times> string list) option" where
  "discoverParent env service =
     (case searchLoop env (levelBound env (maxLevelsToSearch service)) ''..'' [] of
        None \<Rightarrow> None
      | Some (Inl e, visited) \<Rightarrow> Some (Inl e, visited)
      | Some (Inr relativePath, visited) \<Rightarrow>
          if \<not> existsSync env (path_join relativePath ''serverless.yml'')
          then Some (Inl DiscoveryError, visited)
          else Some (Inr (JStr (path_join relativePath ''serverless.yml'')), visited))"

text \<open>
  The result is the path or the error thrown, with the directories visited by
  auto-discovery (none when the explicit path is taken).
\<close>

definition getParentConfigurationRelativePath ::
  "environment \<Rightarrow> jsobj \<Rightarrow> ((error + jsval) \<times> string list) option" where
  "getParentConfigurationRelativePath env service =
     (case parentOption service ''path'' of
        None \<Rightarrow> discoverParent env service
      | Some p \<Rightarrow> if truthy (Some p) then Some (explicitPath p, []) else discoverParent env service)"

section \<open>Merging the parent into the service\<close>

text \<open>
  Lines 111 to 118: the flag is \<open>true\<close> unless \<open>custom.parent.overwriteServiceConfig\<close> of
  the service, as it is at that point, is \<open>false\<close>. The guards compare with \<open>undefined\<close>
  only, so reading a property of \<open>null\<close> throws.
\<close>

definition readOverwriteFlag :: "jsobj \<Rightarrow> error + bool" where
  "readOverwriteFlag service =
     (case map_of service ''custom'' of
        None \<Rightarrow> Inr True
      | Some JNull \<Rightarrow> Inl TypeError
      | Some custom \<Rightarrow>
          (case get_prop custom ''parent'' of
             None \<Rightarrow> Inr True
           | Some JNull \<Rightarrow> Inl TypeError
           | Some parent \<Rightarrow>
               Inr (get_prop parent ''overwriteServiceConfig'' \<noteq> Some (JBool False))))"

text \<open>
  Lines 106 to 126, on the service and the parent document read from the file. The
  result is the error thrown, if any, and the service as it is left.
\<close>

definition mergeIntoService :: "jsobj \<Rightarrow> jsval \<Rightarrow> error option \<times> jsobj" where
  "mergeIntoService service parentConfiguration =
     (let userServiceConfig = lodash_merge [] (JObj service);
          merged = lodash_merge service parentConfiguration
      in case readOverwriteFlag merged of
           Inl e \<Rightarrow> (Some e, merged)
         | Inr overwriteServiceConfig \<Rightarrow>
             let again = lodash_merge merged parentConfiguration
             in if \<not> overwriteServiceConfig
                then (None, lodash_merge again (JObj userServiceConfig))
                else (None, again))"

text \<open>
  \<open>mergeParentConfigurationIntoService\<close>: locate, load, merge. An exception leaves the
  service as it was when it was thrown. The closing call of the host's
  \<open>populateService\<close> belongs to the host and is left out.
\<close>

record outcome =
  failure :: "error option"
  service :: jsobj
  probed :: "string list"

definition mergeParentConfigurationIntoService ::
  "environment \<Rightarrow> jsobj \<Rightarrow> outcome option" where
  "mergeParentConfigurationIntoService env svc =
     (case getParentConfigurationRelativePath env svc of
        None \<Rightarrow> None
      | Some (Inl e, visited) \<Rightarrow>
          Some \<lparr>failure = Some e, service = svc, probed = visited\<rparr>
      | Some (Inr parentConfigurationFilename, visited) \<Rightarrow>
          (case readFileSync env parentConfigurationFilename of
             None \<Rightarrow> Some \<lparr>failure = Some LoadError, service = svc, probed = visited\<rparr>
           | Some parentConfiguration \<Rightarrow>
               (case mergeIntoService svc parentConfiguration of
                  (e, svc') \<Rightarrow> Some \<lparr>failure = e, service = svc', probed = visited\<rparr>)))"

section \<open>Printing the effective configuration\<close>

text \<open>\<open>Object.keys(v).length\<close> of a truthy value.\<close>

fun ownKeyCount :: "jsval \<Rightarrow> nat" where
  "ownKeyCount (JObj kvs) = length kvs"
| "ownKeyCount (JArr xs ps) = length xs + length ps"
| "ownKeyCount (JStr s) = length s"
| "ownKeyCount v = 0"

definition fieldsToOutput :: "string list" where
  "fieldsToOutput =
     [''custom'', ''functions'', ''package'', ''provider'', ''resources'', ''service'']"

definition outputField :: "jsobj \<Rightarrow> string \<Rightarrow> jsobj \<Rightarrow> jsobj" where
  "outputField svc fieldName effectiveServiceConfig =
     (case map_of svc fieldName of
        None \<Rightarrow> effectiveServiceConfig
      | Some fieldValue \<Rightarrow>
          if truthy (Some fieldValue) \<and> ownKeyCount fieldValue > 0
          then assignValue fieldName fieldValue effectiveServiceConfig
          else effectiveServiceConfig)"

definition effectiveServiceConfig :: "jsobj \<Rightarrow> jsobj" where
  "effectiveServiceConfig svc = fold (outputField svc) fieldsToOutput []"

definition printEffectiveConfig :: "environment \<Rightarrow> jsobj \<Rightarrow> string" where
  "printEffectiveConfig env svc =
     ''Effective serverless.yml:'' @ [CHR 0x0A] @ yamlDump env (JObj (effectiveServiceConfig svc))"

section \<open>Observing documents\<close>

text \<open>
  A JavaScript object has every key once. An association list stands for one when
  its keys are distinct, here and in every value below.
\<close>

fun distinctKeys :: "jsval \<Rightarrow> bool"
  and distinctKeysList :: "jsval list \<Rightarrow> bool"
  and distinctKeysProps :: "jsobj \<Rightarrow> bool" where
  "distinctKeys (JArr xs ps) = (distinctKeysList xs \<and> distinctKeysProps ps)"
| "distinctKeys (JObj kvs) = distinctKeysProps kvs"
| "distinctKeys JNull = True"
| "distinctKeys (JBool b) = True"
| "distinctKeys (JNum n) = True"
| "distinctKeys (JStr s) = True"
| "distinctKeysList [] = True"
| "distinctKeysList (x # xs) = (distinctKeys x \<and> distinctKeysList xs)"
| "distinctKeysProps [] = True"
| "distinctKeysProps ((k, v) # kvs) =
     (k \<notin> fst ` set kvs \<and> distinctKeys v \<and> distinctKeysProps kvs)"

fun isScalar :: "jsval \<Rightarrow> bool" where
  "isScalar (JArr xs ps) = False"
| "isScalar (JObj kvs) = False"
| "isScalar v = True"

text \<open>The value found by following keys and sequence positions from the top of a document.\<close>

datatype step = Key string | Index nat

fun valueAt :: "jsval \<Rightarrow> step list \<Rightarrow> jsval option" where
  "valueAt v [] = Some v"
| "valueAt (JObj kvs) (Key k # path) =
     (case map_of kvs k of None \<Rightarrow> None | Some v \<Rightarrow> valueAt v path)"
| "valueAt (JArr xs ps) (Key k # path) =
     (case map_of ps k of None \<Rightarrow> None | Some v \<Rightarrow> valueAt v path)"
| "valueAt (JArr xs ps) (Index i # path) =
     (if i < length xs then valueAt (xs ! i) path else None)"
| "valueAt v (s # path) = None"

text \<open>
  The named properties a value offers to a property read or to a merge: the entries of
  a mapping, the named properties of a sequence, none of a scalar.
\<close>

fun propsOf :: "jsval option \<Rightarrow> jsobj" where
  "propsOf (Some (JObj qs)) = qs"
| "propsOf (Some (JArr xs qs)) = qs"
| "propsOf d = []"

text \<open>
  A document as read from a file has no named properties on its sequences.
\<close>

fun plainSequences :: "jsval \<Rightarrow> bool"
  and plainSequencesList :: "jsval list \<Rightarrow> bool"
  and plainSequencesProps :: "jsobj \<Rightarrow> bool" where
  "plainSequences (JArr xs ps) = (ps = [] \<and> plainSequencesList xs)"
| "plainSequences (JObj kvs) = plainSequencesProps kvs"
| "plainSequences JNull = True"
| "plainSequences (JBool b) = True"
| "plainSequences (JNum n) = True"
| "plainSequences (JStr s) = True"
| "plainSequencesList [] = True"
| "plainSequencesList (x # xs) = (plainSequences x \<and> plainSequencesList xs)"
| "plainSequencesProps [] = True"
| "plainSequencesProps ((k, v) # kvs) = (plainSequences v \<and> plainSequencesProps kvs)"

text \<open>
  The parent document holds nothing at \<open>custom.parent.overwriteServiceConfig\<close>: its
  \<open>custom\<close> section and the \<open>parent\<close> section in it are absent or mappings, and the
  flag is in neither.
\<close>

definition parentHoldsNoFlag :: "jsobj \<Rightarrow> bool" where
  "parentHoldsNoFlag pk =
     (case map_of pk ''custom'' of
        None \<Rightarrow> True
      | Some (JObj pc) \<Rightarrow>
          (case map_of pc ''parent'' of
             None \<Rightarrow> True
           | Some (JObj pp) \<Rightarrow> map_of pp ''overwriteServiceConfig'' = None
           | Some other \<Rightarrow> False)
      | Some other \<Rightarrow> False)"

section \<open>Candidate directories\<close>

text \<open>The relative path \<open>n + 1\<close> levels up: \<open>..\<close>, \<open>../..\<close>, \<open>../../..\<close> and so on.\<close>

fun ancestorPath :: "nat \<Rightarrow> string" where
  "ancestorPath 0 = ''..''"
| "ancestorPath (Suc n) = ''../'' @ ancestorPath n"

section \<open>Example documents and surroundings\<close>

text \<open>
  A service directory right under the home directory, with no \<open>serverless.yml\<close> in any
  ancestor directory and no file the loader can read.
\<close>

definition homeEnv :: environment where
  "homeEnv =
     \<lparr>existsSync = (\<lambda>p. False),
      realpathSync = (\<lambda>p. if p = ''..'' then Some ''/home/dev'' else Some ''/home''),
      homedir = ''/home/dev'',
      readFileSync = (\<lambda>p. None),
      toNumber = (\<lambda>v. None),
      yamlDump = (\<lambda>v. [])\<rparr>"

definition exampleService :: jsobj where
  "exampleService =
     [(''service'', JStr ''orders''), (''plugins'', JArr [JStr ''x''] []),
      (''custom'', JObj []), (''provider'', JObj [(''stage'', JStr ''dev'')])]"

text \<open>
  A service in \<open>/srv/app\<close>, outside the home directory, on a file system without any
  \<open>serverless.yml\<close>: every ancestor beyond \<open>/srv\<close> resolves to the root.
\<close>

definition rootEnv :: environment where
  "rootEnv =
     \<lparr>existsSync = (\<lambda>p. False),
      realpathSync = (\<lambda>p. if p = ''..'' then Some ''/srv'' else Some ''/''),
      homedir = ''/home/dev'',
      readFileSync = (\<lambda>p. None),
      toNumber = (\<lambda>v. None),
      yamlDump = (\<lambda>v. [])\<rparr>"

definition serviceWithMaxLevels :: "int \<Rightarrow> jsobj" where
  "serviceWithMaxLevels n =
     [(''service'', JStr ''orders''),
      (''custom'', JObj [(''parent'', JObj [(''maxLevels'', JNum n)])])]"

definition serviceWithPath :: "string \<Rightarrow> jsobj" where
  "serviceWithPath p =
     [(''service'', JStr ''orders''),
      (''custom'', JObj [(''parent'', JObj [(''path'', JStr p)])])]"

text \<open>Child and parent documents: the scenario of the specification and variations.\<close>

definition devService :: jsobj where
  "devService =
     [(''provider'', JObj [(''stage'', JStr ''dev'')]),
      (''custom'', JObj [(''parent'', JObj [(''overwriteServiceConfig'', JBool False)])])]"

definition prodParent :: jsobj where
  "prodParent =
     [(''provider'', JObj [(''stage'', JStr ''prod''), (''region'', JStr ''us-east-1'')])]"

definition prodParentOverwriting :: jsobj where
  "prodParentOverwriting =
     [(''provider'', JObj [(''stage'', JStr ''prod''), (''region'', JStr ''us-east-1'')]),
      (''custom'', JObj [(''parent'', JObj [(''overwriteServiceConfig'', JBool True)])])]"

definition pluginService :: jsobj where
  "pluginService = [(''plugins'', JArr [JStr ''a'', JStr ''b'', JStr ''c''] [])]"

definition pluginParent :: jsobj where
  "pluginParent = [(''plugins'', JArr [JStr ''z''] [])]"

definition listService :: jsobj where
  "listService =
     [(''stages'', JArr [JStr ''dev''] []),
      (''custom'', JObj [(''parent'', JObj [(''overwriteServiceConfig'', JBool False)])])]"

definition listParent :: jsobj where
  "listParent = [(''stages'', JArr [JStr ''qa'', JStr ''staging'', JStr ''prod''] [])]"

text \<open>
  A parent with a \<open>custom\<close> section of its own and no flag in it; a child and a parent
  that hold a sequence under \<open>functions.f.events\<close>.
\<close>

definition prodParentWithCustom :: jsobj where
  "prodParentWithCustom =
     [(''provider'', JObj [(''stage'', JStr ''prod'')]),
      (''custom'', JObj [(''parent'', JObj [(''maxLevels'', JNum 2)]), (''team'', JStr ''core'')])]"

definition eventsService :: jsobj where
  "eventsService =
     [(''functions'', JObj [(''f'', JObj [(''events'', JArr [JStr ''http''] [])])]),
      (''custom'', JObj [(''parent'', JObj [(''overwriteServiceConfig'', JBool False)])])]"

definition eventsParent :: jsobj where
  "eventsParent =
     [(''functions'',
       JObj [(''f'', JObj [(''events'', JArr [JStr ''sqs'', JStr ''sns'', JStr ''s3''] [])])])]"

text \<open>
  A home directory \<open>/home/dev\<close> that is a symbolic link to \<open>/mnt/users/dev\<close>, with the
  service in a directory right under it; and a service that sits in the home directory
  itself. No ancestor directory has a \<open>serverless.yml\<close>.
\<close>

definition symlinkedHomeEnv :: environment where
  "symlinkedHomeEnv =
     \<lparr>existsSync = (\<lambda>p. False),
      realpathSync = (\<lambda>p. if p = ''/home/dev'' \<or> p = ''..'' then Some ''/mnt/users/dev''
                          else if p = ''../..'' then Some ''/mnt/users''
                          else if p = ''../../..'' then Some ''/mnt''
                          else Some ''/''),
      homedir = ''/home/dev'',
      readFileSync = (\<lambda>p. None),
      toNumber = (\<lambda>v. None),
      yamlDump = (\<lambda>v. [])\<rparr>"

definition inHomeEnv :: environment where
  "inHomeEnv =
     \<lparr>existsSync = (\<lambda>p. False),
      realpathSync = (\<lambda>p. if p = ''/home/dev'' then Some ''/home/dev''
                          else if p = ''..'' then Some ''/home''
                          else Some ''/''),
      homedir = ''/home/dev'',
      readFileSync = (\<lambda>p. None),
      toNumber = (\<lambda>v. None),
      yamlDump = (\<lambda>v. [])\<rparr>"

text \<open>
  A parent document, found in the directory above the service, whose \<open>custom\<close> section
  is empty in the file and so \<open>null\<close>.
\<close>

definition nullCustomParent :: jsobj where
  "nullCustomParent = [(''provider'', JObj [(''stage'', JStr ''prod'')]), (''custom'', JNull)]"

definition nullCustomEnv :: environment where
  "nullCustomEnv =
     \<lparr>existsSync = (\<lambda>p. p = ''../serverless.yml''),
      realpathSync = (\<lambda>p. if p = ''..'' then Some ''/home/dev/services'' else Some ''/home/dev''),
      homedir = ''/home/dev'',
      readFileSync = (\<lambda>p. if p = JStr ''../serverless.yml'' then Some (JObj nullCustomParent)
                          else None),
      toNumber = (\<lambda>v. None),
      yamlDump = (\<lambda>v. [])\<rparr>"

section \<open>Assignment and lookup\<close>

lemma map_of_assignValue: "map_of (assignValue k v kvs) = (map_of kvs)(k \<mapsto> v)"
  by (induction kvs) auto

lemma keys_assignValue: "fst ` set (assignValue k v kvs) = insert k (fst ` set kvs)"
  by (induction kvs) force+

section \<open>The printed sections\<close>

lemma map_of_outputField:
  "map_of (outputField svc n acc) name =
     (if name = n \<and> (\<exists>v. map_of svc name = Some v \<and> truthy (Some v) \<and> 0 < ownKeyCount v)
      then map_of svc name else map_of acc name)"
  by (auto simp: outputField_def map_of_assignValue split: option.splits)

lemma map_of_outputFields:
  "map_of (fold (outputField svc) names acc) name =
     (if name \<in> set names \<and> (\<exists>v. map_of svc name = Some v \<and> truthy (Some v) \<and> 0 < ownKeyCount v)
      then map_of svc name else map_of acc name)"
proof (induction names arbitrary: acc)
  case Nil
  then show ?case by simp
next
  case (Cons n names)
  show ?case
    by (auto simp: Cons.IH map_of_outputField)
qed

lemma keys_outputFields:
  "fst ` set (fold (outputField svc) names acc) \<subseteq> set names \<union> fst ` set acc"
proof (induction names arbitrary: acc)
  case Nil
  then show ?case by simp
next
  case (Cons n names)
  have "fst ` set (outputField svc n acc) \<subseteq> insert n (fst ` set acc)"
    by (auto simp: outputField_def keys_assignValue split: option.splits)
  with Cons.IH [of "outputField svc n acc"] show ?case by auto
qed

lemma effective_entry:
  "map_of (effectiveServiceConfig svc) name = Some v \<Longrightarrow>
   name \<in> set fieldsToOutput \<and> map_of svc name = Some v \<and> truthy (Some v) \<and> 0 < ownKeyCount v"
  by (auto simp: effectiveServiceConfig_def map_of_outputFields split: if_splits)

text \<open>
  Claim C9. What \<open>printEffectiveConfig\<close> logs is the YAML dump of an object whose keys
  are among \<open>custom\<close>, \<open>functions\<close>, \<open>package\<close>, \<open>provider\<close>, \<open>resources\<close> and
  \<open>service\<close>. A section that the service does not have, or that is \<open>null\<close>, an empty
  mapping, an empty sequence or an empty string, is not in it; a section of the six that
  is truthy and has at least one own key is in it with its value; and nothing else is in
  it (a number or a boolean has no own key and counts as empty).
\<close>

theorem printEffectiveConfig_sections:
  "printEffectiveConfig env svc =
     ''Effective serverless.yml:'' @ [CHR 0x0A] @ yamlDump env (JObj (effectiveServiceConfig svc))
   \<and> fst ` set (effectiveServiceConfig svc)
       \<subseteq> {''custom'', ''functions'', ''package'', ''provider'', ''resources'', ''service''}
   \<and> (\<forall>name. map_of svc name = None \<or> map_of svc name = Some JNull
          \<or> map_of svc name = Some (JObj []) \<or> map_of svc name = Some (JArr [] [])
          \<or> map_of svc name = Some (JStr [])
        \<longrightarrow> name \<notin> fst ` set (effectiveServiceConfig svc))
   \<and> (\<forall>name v. name \<in> {''custom'', ''functions'', ''package'', ''provider'', ''resources'', ''service''}
          \<and> map_of svc name = Some v \<and> truthy (Some v) \<and> 0 < ownKeyCount v
        \<longrightarrow> map_of (effectiveServiceConfig svc) name = Some v)
   \<and> (\<forall>name v. map_of (effectiveServiceConfig svc) name = Some v
        \<longrightarrow> map_of svc name = Some v \<and> truthy (Some v) \<and> 0 < ownKeyCount v)"
proof (intro conjI allI impI)
  show "printEffectiveConfig env svc =
     ''Effective serverless.yml:'' @ [CHR 0x0A] @ yamlDump env (JObj (effectiveServiceConfig svc))"
    by (simp add: printEffectiveConfig_def)
  show "fst ` set (effectiveServiceConfig svc)
     \<subseteq> {''custom'', ''functions'', ''package'', ''provider'', ''resources'', ''service''}"
    using keys_outputFields [of svc fieldsToOutput "[]"]
    by (simp add: effectiveServiceConfig_def fieldsToOutput_def)
next
  fix name
  assume "map_of svc name = None \<or> map_of svc name = Some JNull
          \<or> map_of svc name = Some (JObj []) \<or> map_of svc name = Some (JArr [] [])
          \<or> map_of svc name = Some (JStr [])"
  then have "map_of (effectiveServiceConfig svc) name = None"
    by (auto simp: effectiveServiceConfig_def map_of_outputFields)
  then show "name \<notin> fst ` set (effectiveServiceConfig svc)"
    by (simp add: map_of_eq_None_iff)
next
  fix name v
  assume "name \<in> {''custom'', ''functions'', ''package'', ''provider'', ''resources'', ''service''}
          \<and> map_of svc name = Some v \<and> truthy (Some v) \<and> 0 < ownKeyCount v"
  moreover have "set fieldsToOutput =
      {''custom'', ''functions'', ''package'', ''provider'', ''resources'', ''service''}"
    by (simp add: fieldsToOutput_def)
  ultimately show "map_of (effectiveServiceConfig svc) name = Some v"
    unfolding effectiveServiceConfig_def map_of_outputFields by simp
next
  fix name v
  assume "map_of (effectiveServiceConfig svc) name = Some v"
  then have "name \<in> set fieldsToOutput \<and> map_of svc name = Some v
      \<and> truthy (Some v) \<and> 0 < ownKeyCount v"
    by (rule effective_entry)
  then show "map_of svc name = Some v" "truthy (Some v)" "0 < ownKeyCount v"
    by blast+
qed

theorem printEffectiveConfig_sections_witness:
  "effectiveServiceConfig exampleService =
     [(''provider'', JObj [(''stage'', JStr ''dev'')]), (''service'', JStr ''orders'')]
   \<and> ''custom'' \<notin> fst ` set (effectiveServiceConfig exampleService)
   \<and> map_of (effectiveServiceConfig exampleService) ''provider''
       = Some (JObj [(''stage'', JStr ''dev'')])"
proof -
  have e: "effectiveServiceConfig exampleService =
     [(''provider'', JObj [(''stage'', JStr ''dev'')]), (''service'', JStr ''orders'')]"
    by (simp add: effectiveServiceConfig_def fieldsToOutput_def outputField_def exampleService_def)
  have c: "map_of exampleService ''custom'' = Some (JObj [])"
    and p: "map_of exampleService ''provider'' = Some (JObj [(''stage'', JStr ''dev'')])"
    by (simp_all add: exampleService_def)
  note sections = printEffectiveConfig_sections [of homeEnv exampleService]
  from sections have "\<forall>name. map_of exampleService name = None
          \<or> map_of exampleService name = Some JNull
          \<or> map_of exampleService name = Some (JObj [])
          \<or> map_of exampleService name = Some (JArr [] [])
          \<or> map_of exampleService name = Some (JStr [])
        \<longrightarrow> name \<notin> fst ` set (effectiveServiceConfig exampleService)"
    by (elim conjE)
  with c have absent: "''custom'' \<notin> fst ` set (effectiveServiceConfig exampleService)"
    by (elim allE [of _ "''custom''"]) simp
  have "map_of (effectiveServiceConfig exampleService) ''provider''
      = Some (JObj [(''stage'', JStr ''dev'')])"
    by (simp add: e)
  with e absent show ?thesis by (intro conjI)
qed

section \<open>Failures before the merge\<close>

lemma readOverwriteFlag_error: "readOverwriteFlag svc = Inl e \<Longrightarrow> e = TypeError"
  by (auto simp: readOverwriteFlag_def split: option.splits jsval.splits)

lemma mergeIntoService_error: "mergeIntoService svc p = (Some e, svc') \<Longrightarrow> e = TypeError"
  by (auto simp: mergeIntoService_def Let_def split: sum.splits if_splits
      dest: readOverwriteFlag_error)

text \<open>
  The merge phase has one failure of its own: a \<open>custom\<close> section that is \<open>null\<close> after
  the first merge makes the read of the flag throw, with the first merge already done.
\<close>

lemma null_custom_throws_after_first_merge:
  "map_of (lodash_merge svc p) ''custom'' = Some JNull \<Longrightarrow>
   mergeIntoService svc p = (Some TypeError, lodash_merge svc p)"
  by (simp add: mergeIntoService_def Let_def readOverwriteFlag_def)

text \<open>
  A discovery error and a load error are thrown before the first merge: with either,
  the service is what it was before the call.
\<close>


theorem failure_leaves_service_unmodified:
  "mergeParentConfigurationIntoService env svc = Some out \<Longrightarrow>
   failure out = Some DiscoveryError \<or> failure out = Some LoadError \<Longrightarrow>
   service out = svc"
  by (auto simp: mergeParentConfigurationIntoService_def
      split: option.splits sum.splits prod.splits dest: mergeIntoService_error)

theorem failure_leaves_service_unmodified_witness:
  "mergeParentConfigurationIntoService homeEnv exampleService =
     Some \<lparr>failure = Some DiscoveryError, service = exampleService, probed = [''..'']\<rparr>
   \<and> service \<lparr>failure = Some DiscoveryError, service = exampleService, probed = [''..'']\<rparr>
       = exampleService"
proof -
  have run: "mergeParentConfigurationIntoService homeEnv exampleService =
     Some \<lparr>failure = Some DiscoveryError, service = exampleService, probed = [''..'']\<rparr>"
    by (simp add: mergeParentConfigurationIntoService_def getParentConfigurationRelativePath_def
        parentOption_def discoverParent_def maxLevelsToSearch_def levelBound_def searchLoop.simps
        homeEnv_def
        exampleService_def)
  from failure_leaves_service_unmodified [OF run] run show ?thesis
    by simp
qed

section \<open>The upward search\<close>

lemma ancestorPath_snoc: "ancestorPath n @ ''/..'' = ancestorPath (Suc n)"
  by (induction n) simp_all

lemma length_ancestorPath: "length (ancestorPath n) = 3 * n + 2"
  by (induction n) simp_all

lemma ancestorPath_ends: "ancestorPath n \<noteq> [] \<and> hd (ancestorPath n) = CHR ''.'' \<and> last (ancestorPath n) = CHR ''.''"
  by (induction n) simp_all

lemma split_sep_ancestorPath: "split_sep (ancestorPath n) = replicate (Suc n) ''..''"
  by (induction n) simp_all

lemma split_sep_file: "split_sep (ancestorPath n @ ''/serverless.yml'') = replicate (Suc n) ''..'' @ [''serverless.yml'']"
  by (induction n) simp_all

lemma normalizeString_dots:
  "normalizeString True (replicate j ''..'') (replicate m ''..'' @ rest)
     = normalizeString True (replicate (j + m) ''..'') rest"
proof (induction m arbitrary: j)
  case 0
  then show ?case by simp
next
  case (Suc m)
  have "normalizeString True (replicate j ''..'') (''..'' # replicate m ''..'' @ rest)
        = normalizeString True (replicate (Suc j) ''..'') (replicate m ''..'' @ rest)"
    by (cases j) simp_all
  then show ?case using Suc.IH [of "Suc j"] by simp
qed

lemma join_sep_dots: "join_sep (replicate (Suc n) ''..'') = ancestorPath n"
  by (induction n) simp_all

lemma join_sep_dots_file:
  "join_sep (replicate (Suc n) ''..'' @ [''serverless.yml'']) = ancestorPath n @ ''/serverless.yml''"
  by (induction n) simp_all

lemma normalize_ancestorPath: "normalize (ancestorPath n) = ancestorPath n"
proof -
  have "normalizeString True [] (split_sep (ancestorPath n)) = replicate (Suc n) ''..''"
    using normalizeString_dots [of 0 "Suc n" "[]"]
    by (simp add: split_sep_ancestorPath del: replicate_Suc)
  then show ?thesis
    using ancestorPath_ends [of n]
    by (simp add: normalize_def Let_def join_sep_dots del: replicate_Suc)
qed

lemma path_join_up: "path_join (ancestorPath n) ''..'' = ancestorPath (Suc n)"
  using ancestorPath_ends [of n] normalize_ancestorPath [of "Suc n"]
  by (simp add: path_join_def ancestorPath_snoc [symmetric] del: ancestorPath.simps)

lemma path_join_file: "path_join (ancestorPath n) ''serverless.yml'' = ancestorPath n @ ''/serverless.yml''"
proof -
  have "normalizeString True [] (split_sep (ancestorPath n @ ''/serverless.yml''))
      = replicate (Suc n) ''..'' @ [''serverless.yml'']"
    using normalizeString_dots [of 0 "Suc n" "[''serverless.yml'']"]
    by (simp add: split_sep_file del: replicate_Suc)
  then show ?thesis
    using ancestorPath_ends [of n]
    by (simp add: path_join_def normalize_def Let_def join_sep_dots_file del: replicate_Suc)
qed


lemma upt_cons_snoc: "n \<le> k \<Longrightarrow> n # [Suc n..<Suc k] = [n..<Suc k]"
  by (simp add: upt_conv_Cons)

lemma searchLoop_ancestors:
  "\<exists>r m. searchLoop env bound (ancestorPath n) vis
            = Some (r, vis @ map ancestorPath [n..<Suc (n + m)])
     \<and> (\<forall>j \<in> {n..<n + m}.
            \<not> existsSync env (path_join (ancestorPath j) ''serverless.yml'')
          \<and> realpathSync env (ancestorPath j) \<noteq> None
          \<and> realpathSync env (ancestorPath j) \<noteq> Some (homedir env)
          \<and> belowBound (length (ancestorPath j)) bound)
     \<and> (if existsSync env (path_join (ancestorPath (n + m)) ''serverless.yml'')
        then r = Inr (ancestorPath (n + m))
        else if realpathSync env (ancestorPath (n + m)) = None then r = Inl RealpathError
        else r = Inr (ancestorPath (n + m))
           \<and> (realpathSync env (ancestorPath (n + m)) = Some (homedir env)
              \<or> \<not> belowBound (length (ancestorPath (n + m))) bound))"
  (is "\<exists>r m. ?Q n vis r m")
proof (induction "case bound of None \<Rightarrow> 0 | Some b \<Rightarrow> nat (b - int (length (ancestorPath n)))"
    arbitrary: n vis rule: less_induct)
  case less
  show ?case
  proof (cases "existsSync env (path_join (ancestorPath n) ''serverless.yml'')")
    case True
    then have "searchLoop env bound (ancestorPath n) vis
        = Some (Inr (ancestorPath n), vis @ [ancestorPath n])"
      by (subst searchLoop.simps) simp
    with True have "?Q n vis (Inr (ancestorPath n)) 0" by simp
    then show ?thesis by blast
  next
    case noFile: False
    show ?thesis
    proof (cases "realpathSync env (ancestorPath n)")
      case None
      with noFile have "searchLoop env bound (ancestorPath n) vis
          = Some (Inl RealpathError, vis @ [ancestorPath n])"
        by (subst searchLoop.simps) simp
      with noFile None have "?Q n vis (Inl RealpathError) 0" by simp
      then show ?thesis by blast
    next
      case (Some real)
      show ?thesis
      proof (cases "real \<noteq> homedir env \<and> belowBound (length (ancestorPath n)) bound")
        case False
        with noFile Some have "searchLoop env bound (ancestorPath n) vis
            = Some (Inr (ancestorPath n), vis @ [ancestorPath n])"
          by (subst searchLoop.simps) auto
        with noFile Some False have "?Q n vis (Inr (ancestorPath n)) 0" by auto
        then show ?thesis by blast
      next
        case True
        then obtain b where b: "bound = Some b" "int (length (ancestorPath n)) < b"
          by (cases bound) auto
        then have "(case bound of None \<Rightarrow> 0 | Some b \<Rightarrow> nat (b - int (length (ancestorPath (Suc n)))))
            < (case bound of None \<Rightarrow> 0 | Some b \<Rightarrow> nat (b - int (length (ancestorPath n))))"
          by (simp add: length_ancestorPath)
        from less [OF this, of "vis @ [ancestorPath n]"]
        obtain r m where rec: "?Q (Suc n) (vis @ [ancestorPath n]) r m" by blast
        have step: "searchLoop env bound (ancestorPath n) vis
            = searchLoop env bound (ancestorPath (Suc n)) (vis @ [ancestorPath n])"
          using noFile Some True by (subst searchLoop.simps) (simp add: path_join_up)
        have lst: "[ancestorPath n] @ map ancestorPath [Suc n..<Suc (Suc n + m)]
            = map ancestorPath [n..<Suc (n + Suc m)]"
          using upt_cons_snoc [of n "n + Suc m"] by (metis Cons_eq_appendI add_Suc_right add_Suc_shift append_Nil le_add1 list.simps(9))
        have all: "\<forall>j \<in> {n..<n + Suc m}.
            \<not> existsSync env (path_join (ancestorPath j) ''serverless.yml'')
          \<and> realpathSync env (ancestorPath j) \<noteq> None
          \<and> realpathSync env (ancestorPath j) \<noteq> Some (homedir env)
          \<and> belowBound (length (ancestorPath j)) bound"
        proof
          fix j assume j: "j \<in> {n..<n + Suc m}"
          show "\<not> existsSync env (path_join (ancestorPath j) ''serverless.yml'')
          \<and> realpathSync env (ancestorPath j) \<noteq> None
          \<and> realpathSync env (ancestorPath j) \<noteq> Some (homedir env)
          \<and> belowBound (length (ancestorPath j)) bound"
          proof (cases "j = n")
            case True
            with noFile Some \<open>real \<noteq> homedir env \<and> belowBound (length (ancestorPath n)) bound\<close>
            show ?thesis by simp
          next
            case False
            with j have "j \<in> {Suc n..<Suc n + m}" by simp
            with rec show ?thesis by blast
          qed
        qed
        have "?Q n vis r (Suc m)"
          using rec step lst all by (simp del: upt_Suc ancestorPath.simps cong: if_cong)
        then show ?thesis by blast
      qed
    qed
  qed
qed

lemma discoverParent_ancestors:
  "\<exists>r m. discoverParent env svc = Some (r, map ancestorPath [0..<Suc m])
     \<and> (\<forall>j \<in> {0..<m}.
            realpathSync env (ancestorPath j) \<noteq> Some (homedir env)
          \<and> belowBound (length (ancestorPath j)) (levelBound env (maxLevelsToSearch svc)))
     \<and> (r = Inl DiscoveryError \<or> r = Inl RealpathError
         \<or> r = Inr (JStr (path_join (ancestorPath m) ''serverless.yml'')))
     \<and> (r = Inl DiscoveryError \<longrightarrow>
          \<not> existsSync env (path_join (ancestorPath m) ''serverless.yml'')
          \<and> (realpathSync env (ancestorPath m) = Some (homedir env)
             \<or> \<not> belowBound (length (ancestorPath m)) (levelBound env (maxLevelsToSearch svc))))
     \<and> (\<not> existsSync env (path_join (ancestorPath m) ''serverless.yml'')
          \<and> realpathSync env (ancestorPath m) \<noteq> None \<longrightarrow> r = Inl DiscoveryError)"
proof -
  have "\<exists>r m. searchLoop env (levelBound env (maxLevelsToSearch svc)) ''..'' []
            = Some (r, map ancestorPath [0..<Suc m])
     \<and> (\<forall>j \<in> {0..<m}.
            \<not> existsSync env (path_join (ancestorPath j) ''serverless.yml'')
          \<and> realpathSync env (ancestorPath j) \<noteq> None
          \<and> realpathSync env (ancestorPath j) \<noteq> Some (homedir env)
          \<and> belowBound (length (ancestorPath j)) (levelBound env (maxLevelsToSearch svc)))
     \<and> (if existsSync env (path_join (ancestorPath m) ''serverless.yml'')
        then r = Inr (ancestorPath m)
        else if realpathSync env (ancestorPath m) = None then r = Inl RealpathError
        else r = Inr (ancestorPath m)
           \<and> (realpathSync env (ancestorPath m) = Some (homedir env)
              \<or> \<not> belowBound (length (ancestorPath m)) (levelBound env (maxLevelsToSearch svc))))"
    using searchLoop_ancestors [of env "levelBound env (maxLevelsToSearch svc)" 0 "[]"]
    by (simp del: upt_Suc cong: if_cong)
  then obtain r m where
    run: "searchLoop env (levelBound env (maxLevelsToSearch svc)) ''..'' []
            = Some (r, map ancestorPath [0..<Suc m])"
    and before: "\<forall>j \<in> {0..<m}.
            \<not> existsSync env (path_join (ancestorPath j) ''serverless.yml'')
          \<and> realpathSync env (ancestorPath j) \<noteq> None
          \<and> realpathSync env (ancestorPath j) \<noteq> Some (homedir env)
          \<and> belowBound (length (ancestorPath j)) (levelBound env (maxLevelsToSearch svc))"
    and stop: "if existsSync env (path_join (ancestorPath m) ''serverless.yml'')
        then r = Inr (ancestorPath m)
        else if realpathSync env (ancestorPath m) = None then r = Inl RealpathError
        else r = Inr (ancestorPath m)
           \<and> (realpathSync env (ancestorPath m) = Some (homedir env)
              \<or> \<not> belowBound (length (ancestorPath m)) (levelBound env (maxLevelsToSearch svc)))"
    by blast
  show ?thesis
  proof (cases "existsSync env (path_join (ancestorPath m) ''serverless.yml'')")
    case True
    with stop run have "discoverParent env svc
        = Some (Inr (JStr (path_join (ancestorPath m) ''serverless.yml'')), map ancestorPath [0..<Suc m])"
      by (simp add: discoverParent_def del: upt_Suc)
    with before True show ?thesis by (intro exI [of _ "Inr (JStr (path_join (ancestorPath m) ''serverless.yml''))"] exI [of _ m]) simp
  next
    case noFile: False
    show ?thesis
    proof (cases "realpathSync env (ancestorPath m) = None")
      case True
      with stop run noFile have "discoverParent env svc
          = Some (Inl RealpathError, map ancestorPath [0..<Suc m])"
        by (simp add: discoverParent_def del: upt_Suc)
      with before True show ?thesis
        by (intro exI [of _ "Inl RealpathError"] exI [of _ m]) simp
    next
      case False
      with stop run noFile have "discoverParent env svc
          = Some (Inl DiscoveryError, map ancestorPath [0..<Suc m])"
        by (simp add: discoverParent_def del: upt_Suc)
      with before False noFile stop show ?thesis
        by (intro exI [of _ "Inl DiscoveryError"] exI [of _ m]) simp
    qed
  qed
qed


lemma nth_ancestors: "i < Suc m \<Longrightarrow> map ancestorPath [0..<Suc m] ! i = ancestorPath i"
  by (metis add_0 nth_map_upt diff_zero)

text \<open>The locator and the whole operation return from every service and file system.\<close>

lemma getParentConfigurationRelativePath_returns:
  "\<exists>r visited. getParentConfigurationRelativePath env svc = Some (r, visited)"
proof -
  from discoverParent_ancestors [of env svc] obtain r m where
    "discoverParent env svc = Some (r, map ancestorPath [0..<Suc m])" by blast
  then show ?thesis
    by (auto simp: getParentConfigurationRelativePath_def split: option.splits)
qed

lemma mergeParentConfigurationIntoService_returns:
  "\<exists>out. mergeParentConfigurationIntoService env svc = Some out"
proof -
  from getParentConfigurationRelativePath_returns [of env svc] obtain r visited where
    "getParentConfigurationRelativePath env svc = Some (r, visited)" by blast
  then show ?thesis
    by (auto simp: mergeParentConfigurationIntoService_def split: option.splits sum.splits prod.splits)
qed

text \<open>
  Claim C4. With no explicit path and \<open>maxLevels\<close> a positive integer \<open>N\<close>, the locator
  returns, having looked into the ancestor directories \<open>..\<close>, \<open>../..\<close> and so on in this
  order, into at least the first and into at most \<open>N\<close> of them; a discovery error means
  that the last of them has no \<open>serverless.yml\<close>. For \<open>N = 1\<close> the directory \<open>..\<close> is
  the one looked into.
\<close>

theorem maxLevels_bounds_discovery:
  assumes "\<not> truthy (parentOption svc ''path'')"
    and "parentOption svc ''maxLevels'' = Some (JNum N)"
    and "1 \<le> N"
  shows "\<exists>r visited. getParentConfigurationRelativePath env svc = Some (r, visited)
           \<and> visited \<noteq> [] \<and> hd visited = ''..'' \<and> int (length visited) \<le> N
           \<and> (\<forall>i < length visited. visited ! i = ancestorPath i)
           \<and> (r = Inl DiscoveryError \<longrightarrow>
                \<not> existsSync env (path_join (last visited) ''serverless.yml''))"
proof -
  have lb: "levelBound env (maxLevelsToSearch svc) = Some ((N - 1) * 3)"
    using assms by (simp add: maxLevelsToSearch_def levelBound_def)
  have disc: "getParentConfigurationRelativePath env svc = discoverParent env svc"
    using assms(1) by (auto simp: getParentConfigurationRelativePath_def split: option.splits)
  from discoverParent_ancestors [of env svc] obtain r m where
    run: "discoverParent env svc = Some (r, map ancestorPath [0..<Suc m])"
    and before: "\<forall>j \<in> {0..<m}. belowBound (length (ancestorPath j)) (levelBound env (maxLevelsToSearch svc))"
    and miss: "r = Inl DiscoveryError \<longrightarrow>
          \<not> existsSync env (path_join (ancestorPath m) ''serverless.yml'')"
    by blast
  have "int (Suc m) \<le> N"
  proof (cases m)
    case 0
    with assms(3) show ?thesis by simp
  next
    case (Suc k)
    with before have "belowBound (length (ancestorPath k)) (Some ((N - 1) * 3))"
      by (simp add: lb)
    then show ?thesis using Suc by (simp add: length_ancestorPath)
  qed
  moreover have "hd (map ancestorPath [0..<Suc m]) = ''..''"
    by (simp add: upt_conv_Cons del: upt_Suc)
  moreover have "last (map ancestorPath [0..<Suc m]) = ancestorPath m"
    by simp
  ultimately show ?thesis
    using run miss disc nth_ancestors [of _ m]
    by (intro exI [of _ r] exI [of _ "map ancestorPath [0..<Suc m]"])
       (simp del: upt_Suc)
qed

text \<open>
  Claim C7, amended. A candidate directory whose canonical path is the home directory
  as \<open>os.homedir()\<close> returns it is the last directory the search looks into: it does not
  go further up from there.
\<close>


theorem home_directory_stops_search:
  assumes "getParentConfigurationRelativePath env svc = Some (r, visited)"
    and "i < length visited"
    and "realpathSync env (visited ! i) = Some (homedir env)"
  shows "Suc i = length visited"
proof (cases "truthy (parentOption svc ''path'')")
  case True
  with assms(1) have "visited = []"
    by (auto simp: getParentConfigurationRelativePath_def split: option.splits)
  with assms(2) show ?thesis by simp
next
  case False
  then have disc: "getParentConfigurationRelativePath env svc = discoverParent env svc"
    by (auto simp: getParentConfigurationRelativePath_def split: option.splits)
  from discoverParent_ancestors [of env svc] obtain r' m where
    run: "discoverParent env svc = Some (r', map ancestorPath [0..<Suc m])"
    and before: "\<forall>j \<in> {0..<m}. realpathSync env (ancestorPath j) \<noteq> Some (homedir env)"
    by blast
  from run disc assms(1) have v: "visited = map ancestorPath [0..<Suc m]" by simp
  with assms(2) have i: "i < Suc m" by simp
  with v assms(3) have "realpathSync env (ancestorPath i) = Some (homedir env)"
    by (simp add: nth_ancestors del: upt_Suc)
  with before have "\<not> i < m" by auto
  with i v show ?thesis by simp
qed


lemma rootEnv_simps:
  "existsSync rootEnv p = False" "realpathSync rootEnv p \<noteq> None"
  "realpathSync rootEnv p \<noteq> Some (homedir rootEnv)"
  by (simp_all add: rootEnv_def)

lemma serviceWithMaxLevels_options:
  "parentOption (serviceWithMaxLevels n) ''path'' = None"
  "parentOption (serviceWithMaxLevels n) ''maxLevels'' = Some (JNum n)"
  by (simp_all add: serviceWithMaxLevels_def parentOption_def)

theorem maxLevels_bounds_discovery_witness:
  "\<not> truthy (parentOption (serviceWithMaxLevels 2) ''path'')
   \<and> parentOption (serviceWithMaxLevels 2) ''maxLevels'' = Some (JNum 2) \<and> (1::int) \<le> 2
   \<and> (\<exists>r visited. getParentConfigurationRelativePath rootEnv (serviceWithMaxLevels 2)
          = Some (r, visited) \<and> visited \<noteq> [] \<and> hd visited = ''..''
          \<and> int (length visited) \<le> 2)"
proof -
  have h1: "\<not> truthy (parentOption (serviceWithMaxLevels 2) ''path'')"
    by (simp add: serviceWithMaxLevels_options)
  have h2: "parentOption (serviceWithMaxLevels 2) ''maxLevels'' = Some (JNum 2)"
    by (simp add: serviceWithMaxLevels_options)
  have h3: "(1::int) \<le> 2" by simp
  from maxLevels_bounds_discovery [OF h1 h2 h3, of rootEnv] obtain r visited where
    "getParentConfigurationRelativePath rootEnv (serviceWithMaxLevels 2) = Some (r, visited)"
    "visited \<noteq> []" "hd visited = ''..''" "int (length visited) \<le> 2"
    by auto
  then have "\<exists>r visited. getParentConfigurationRelativePath rootEnv (serviceWithMaxLevels 2)
          = Some (r, visited) \<and> visited \<noteq> [] \<and> hd visited = ''..''
          \<and> int (length visited) \<le> 2"
    by (intro exI [of _ r] exI [of _ visited]) simp
  with h1 h2 show ?thesis
    by simp
qed


text \<open>
  Claim C5 says that no more than ten levels are ever climbed. With \<open>maxLevels\<close> set to
  12, on a file system without the file and away from the home directory, the search
  looks into twelve ancestor directories, the last twelve levels up, before it fails.
\<close>

theorem maxLevels_above_ten_is_followed:
  "getParentConfigurationRelativePath rootEnv (serviceWithMaxLevels 12)
     = Some (Inl DiscoveryError, map ancestorPath [0..<12])
   \<and> length (map ancestorPath [0..<12]) = 12
   \<and> ancestorPath 11 = ''../../../../../../../../../../../..''"
proof -
  have lb: "levelBound rootEnv (maxLevelsToSearch (serviceWithMaxLevels 12)) = Some 33"
    by (simp add: maxLevelsToSearch_def levelBound_def serviceWithMaxLevels_options)
  from discoverParent_ancestors [of rootEnv "serviceWithMaxLevels 12"] obtain r m where
    run: "discoverParent rootEnv (serviceWithMaxLevels 12) = Some (r, map ancestorPath [0..<Suc m])"
    and before: "\<forall>j \<in> {0..<m}. belowBound (length (ancestorPath j)) (Some 33)"
    and stop: "r = Inl DiscoveryError \<longrightarrow>
       realpathSync rootEnv (ancestorPath m) = Some (homedir rootEnv)
             \<or> \<not> belowBound (length (ancestorPath m)) (Some 33)"
    and err: "\<not> existsSync rootEnv (path_join (ancestorPath m) ''serverless.yml'')
          \<and> realpathSync rootEnv (ancestorPath m) \<noteq> None \<longrightarrow> r = Inl DiscoveryError"
    unfolding lb by blast
  from err have r: "r = Inl DiscoveryError" by (simp add: rootEnv_simps)
  with stop have "\<not> belowBound (length (ancestorPath m)) (Some 33)"
    by (simp add: rootEnv_simps)
  then have lower: "11 \<le> m" by (simp add: length_ancestorPath)
  have "m \<le> 11"
  proof (cases m)
    case 0
    then show ?thesis by simp
  next
    case (Suc k)
    with before have "belowBound (length (ancestorPath k)) (Some 33)" by simp
    with Suc show ?thesis by (simp add: length_ancestorPath)
  qed
  with lower have "Suc m = 12" by simp
  with run r have "discoverParent rootEnv (serviceWithMaxLevels 12)
      = Some (Inl DiscoveryError, map ancestorPath [0..<12])" by (simp del: upt_Suc ancestorPath.simps)
  moreover have "getParentConfigurationRelativePath rootEnv (serviceWithMaxLevels 12)
      = discoverParent rootEnv (serviceWithMaxLevels 12)"
    by (simp add: getParentConfigurationRelativePath_def serviceWithMaxLevels_options)
  moreover have "ancestorPath 11 = ''../../../../../../../../../../../..''"
    by (simp add: eval_nat_numeral)
  ultimately show ?thesis by (simp del: upt_Suc ancestorPath.simps)
qed



theorem home_directory_stops_search_witness:
  "getParentConfigurationRelativePath homeEnv exampleService = Some (Inl DiscoveryError, [''..''])
   \<and> realpathSync homeEnv ([''..''] ! 0) = Some (homedir homeEnv)
   \<and> Suc 0 = length [''..'']"
proof -
  have run: "getParentConfigurationRelativePath homeEnv exampleService
      = Some (Inl DiscoveryError, [''..''])"
    by (simp add: getParentConfigurationRelativePath_def
        parentOption_def discoverParent_def maxLevelsToSearch_def levelBound_def searchLoop.simps
        homeEnv_def exampleService_def)
  have home: "realpathSync homeEnv ([''..''] ! 0) = Some (homedir homeEnv)"
    by (simp add: homeEnv_def)
  have len: "0 < length [''..'']" by simp
  have "Suc 0 = length [''..'']"
    by (rule home_directory_stops_search [OF run len home])
  with run home show ?thesis
    by (intro conjI)
qed

lemma path_join_first_steps:
  "path_join ''..'' ''..'' = ''../..''"
  "path_join ''../..'' ''..'' = ''../../..''"
  "path_join ''..'' ''serverless.yml'' = ''../serverless.yml''"
  using path_join_up [of 0] path_join_up [of "Suc 0"] path_join_file [of 0] by simp_all

text \<open>
  Claim C7 as stated fails. Where the home directory is a symbolic link, the first
  candidate is the resolved home directory, \<open>os.homedir()\<close> is not, and the search goes on
  to the directories above it. And from a service that sits in the home directory the
  first candidate is already above it.
\<close>

theorem home_directory_crossed_counterexample:
  "realpathSync symlinkedHomeEnv (homedir symlinkedHomeEnv) = Some ''/mnt/users/dev''
   \<and> realpathSync symlinkedHomeEnv ''..'' = Some ''/mnt/users/dev''
   \<and> realpathSync symlinkedHomeEnv ''../..'' = Some ''/mnt/users''
   \<and> getParentConfigurationRelativePath symlinkedHomeEnv exampleService
       = Some (Inl DiscoveryError, [''..'', ''../..'', ''../../..''])
   \<and> realpathSync inHomeEnv (homedir inHomeEnv) = Some ''/home/dev''
   \<and> realpathSync inHomeEnv ''..'' = Some ''/home''
   \<and> getParentConfigurationRelativePath inHomeEnv exampleService
       = Some (Inl DiscoveryError, [''..'', ''../..'', ''../../..''])"
  by (simp add: getParentConfigurationRelativePath_def parentOption_def discoverParent_def
      maxLevelsToSearch_def levelBound_def searchLoop.simps path_join_first_steps
      symlinkedHomeEnv_def inHomeEnv_def exampleService_def)

text \<open>
  Claim C8 says that a failed operation leaves the service as it was. The read of the
  flag on lines 113 to 115 guards against \<open>undefined\<close> only, where the reads of the
  locator (lines 145 to 147 and 157 to 159) guard against every falsy value: with a
  parent document whose \<open>custom\<close> section is \<open>null\<close> it throws a TypeError, after line 109
  has merged the parent into the service.
\<close>

theorem null_custom_leaves_service_half_merged:
  "mergeParentConfigurationIntoService nullCustomEnv exampleService =
     Some \<lparr>failure = Some TypeError,
           service = [(''service'', JStr ''orders''), (''plugins'', JArr [JStr ''x''] []),
                      (''custom'', JNull), (''provider'', JObj [(''stage'', JStr ''prod'')])],
           probed = [''..'']\<rparr>
   \<and> [(''service'', JStr ''orders''), (''plugins'', JArr [JStr ''x''] []),
       (''custom'', JNull), (''provider'', JObj [(''stage'', JStr ''prod'')])] \<noteq> exampleService"
  by (simp add: mergeParentConfigurationIntoService_def getParentConfigurationRelativePath_def
      parentOption_def discoverParent_def maxLevelsToSearch_def levelBound_def searchLoop.simps
      path_join_first_steps mergeIntoService_def Let_def lodash_merge_def readOverwriteFlag_def
      nullCustomEnv_def nullCustomParent_def exampleService_def)

section \<open>The explicit path\<close>

lemma take_is_prefix: "take (length pat) s = pat \<longleftrightarrow> (\<exists>post. s = pat @ post)"
  by (metis append_eq_conv_conj append_take_drop_id)

lemma indexOf_from_sign:
  "(indexOf_from i pat s < 0 \<longleftrightarrow> \<not> (\<exists>pre post. s = pre @ pat @ post))"
proof (induction s arbitrary: i)
  case Nil
  then show ?case by simp
next
  case (Cons c cs)
  show ?case
  proof (cases "take (length pat) (c # cs) = pat")
    case True
    then obtain post where "c # cs = [] @ pat @ post"
      using take_is_prefix [of pat "c # cs"] by auto
    then have "\<exists>pre post. c # cs = pre @ pat @ post" by blast
    with True show ?thesis by simp
  next
    case False
    have "(\<exists>pre post. c # cs = pre @ pat @ post) \<longleftrightarrow> (\<exists>pre post. cs = pre @ pat @ post)"
    proof
      assume "\<exists>pre post. c # cs = pre @ pat @ post"
      then obtain pre post where e: "c # cs = pre @ pat @ post" by blast
      show "\<exists>pre post. cs = pre @ pat @ post"
      proof (cases pre)
        case Nil
        with e False take_is_prefix [of pat "c # cs"] show ?thesis by auto
      next
        case (Cons a pre')
        with e have "cs = pre' @ pat @ post" by simp
        then show ?thesis by blast
      qed
    next
      assume "\<exists>pre post. cs = pre @ pat @ post"
      then obtain pre post where "cs = pre @ pat @ post" by blast
      then have "c # cs = (c # pre) @ pat @ post" by simp
      then show "\<exists>pre post. c # cs = pre @ pat @ post" by blast
    qed
    with False Cons.IH [of "Suc i"] show ?thesis by simp
  qed
qed

lemma indexOf_negative: "indexOf s pat < 0 \<longleftrightarrow> \<not> (\<exists>pre post. s = pre @ pat @ post)"
  by (simp add: indexOf_def indexOf_from_sign)

text \<open>
  Claim C6, amended. When \<open>custom.parent.path\<close> is a non-empty string, the locator
  returns it as it is if \<open>.yml\<close> occurs anywhere in it, and joined with
  \<open>serverless.yml\<close> otherwise. Nothing of the file system is consulted and no directory
  is visited.
\<close>

theorem explicit_path_taken_as_given:
  assumes "parentOption svc ''path'' = Some (JStr p)" and "p \<noteq> []"
  shows "getParentConfigurationRelativePath env svc =
           Some (Inr (JStr (if \<exists>pre post. p = pre @ ''.yml'' @ post then p
                            else path_join p ''serverless.yml'')), [])"
  using assms
  by (simp add: getParentConfigurationRelativePath_def indexOf_negative)

lemma serviceWithPath_option: "parentOption (serviceWithPath p) ''path'' = Some (JStr p)"
  by (simp add: serviceWithPath_def parentOption_def)

theorem explicit_path_taken_as_given_witness:
  "parentOption (serviceWithPath ''../shared'') ''path'' = Some (JStr ''../shared'')
   \<and> ''../shared'' \<noteq> []
   \<and> getParentConfigurationRelativePath rootEnv (serviceWithPath ''../shared'')
       = Some (Inr (JStr ''../shared/serverless.yml''), [])"
proof -
  have h: "parentOption (serviceWithPath ''../shared'') ''path'' = Some (JStr ''../shared'')"
    by (rule serviceWithPath_option)
  have n: "''../shared'' \<noteq> []" by simp
  have c: "\<not> (\<exists>pre post. ''../shared'' = pre @ ''.yml'' @ post)"
    unfolding indexOf_negative [symmetric] by (simp add: indexOf_def)
  have j: "path_join ''../shared'' ''serverless.yml'' = ''../shared/serverless.yml''"
    by (simp add: path_join_def normalize_def)
  from explicit_path_taken_as_given [OF h n, of rootEnv] c j h show ?thesis
    by simp
qed

text \<open>
  Claim C6 as stated fails: the path \<open>conf.yml.d\<close> does not end with \<open>.yml\<close>, and it
  is returned without the file name.
\<close>

theorem filename_appended_by_containment_counterexample:
  "parentOption (serviceWithPath ''conf.yml.d'') ''path'' = Some (JStr ''conf.yml.d'')
   \<and> drop 6 ''conf.yml.d'' \<noteq> ''.yml''
   \<and> getParentConfigurationRelativePath rootEnv (serviceWithPath ''conf.yml.d'')
       = Some (Inr (JStr ''conf.yml.d''), [])"
  by (simp add: serviceWithPath_option getParentConfigurationRelativePath_def indexOf_def)

section \<open>Properties of the deep merge\<close>

lemma assignValue_same: "map_of kvs k = Some v \<Longrightarrow> assignValue k v kvs = kvs"
  by (induction kvs) (auto split: if_splits)

lemma assignValue_fresh: "k \<notin> fst ` set kvs \<Longrightarrow> assignValue k v kvs = kvs @ [(k, v)]"
  by (induction kvs) auto

lemma distinctKeysProps_distinct: "distinctKeysProps kvs \<Longrightarrow> distinct (map fst kvs)"
  by (induction kvs) force+

lemma distinctKeysProps_value:
  "distinctKeysProps kvs \<Longrightarrow> map_of kvs k = Some v \<Longrightarrow> distinctKeys v"
  by (induction kvs) (auto split: if_splits)

lemma distinctKeysList_nth: "distinctKeysList xs \<Longrightarrow> i < length xs \<Longrightarrow> distinctKeys (xs ! i)"
  by (induction xs arbitrary: i) (auto simp: nth_Cons split: nat.splits)

lemma map_of_merge_obj_other:
  "k \<notin> fst ` set s \<Longrightarrow> map_of (merge_obj d s) k = map_of d k"
proof (induction s arbitrary: d)
  case Nil
  then show ?case by simp
next
  case (Cons e s)
  obtain k' v' where e: "e = (k', v')" by (cases e)
  with Cons.prems have "k' \<noteq> k" "k \<notin> fst ` set s" by auto
  with Cons.IH show ?case by (simp add: e map_of_assignValue)
qed

lemma map_of_merge_obj:
  "distinct (map fst s) \<Longrightarrow> map_of s k = Some v \<Longrightarrow>
   map_of (merge_obj d s) k = Some (merge_val (map_of d k) v)"
proof (induction s arbitrary: d)
  case Nil
  then show ?case by simp
next
  case (Cons e s)
  obtain k' v' where e: "e = (k', v')" by (cases e)
  show ?case
  proof (cases "k' = k")
    case True
    with Cons.prems e have "v' = v" "k \<notin> fst ` set s" by auto
    with True show ?thesis
      by (simp add: e map_of_merge_obj_other map_of_assignValue)
  next
    case False
    with Cons.prems e have "distinct (map fst s)" "map_of s k = Some v" by auto
    with False Cons.IH show ?thesis by (simp add: e map_of_assignValue)
  qed
qed

lemma length_merge_arr: "length (merge_arr xs ys) = max (length xs) (length ys)"
proof (induction ys arbitrary: xs)
  case Nil
  then show ?case by simp
next
  case (Cons y ys)
  then show ?case by (cases xs) simp_all
qed

lemma nth_merge_arr:
  "i < length ys \<Longrightarrow>
   merge_arr xs ys ! i = merge_val (if i < length xs then Some (xs ! i) else None) (ys ! i)"
proof (induction ys arbitrary: xs i)
  case Nil
  then show ?case by simp
next
  case (Cons y ys)
  show ?case
  proof (cases xs)
    case Nil
    with Cons show ?thesis by (cases i) simp_all
  next
    case (Cons x xs')
    with Cons.prems Cons.IH show ?thesis by (cases i) simp_all
  qed
qed

lemma merge_idempotent:
  "distinctKeys s \<Longrightarrow> merge_val (Some (merge_val d s)) s = merge_val d s"
  "distinctKeysList ys \<Longrightarrow> merge_arr (merge_arr xs ys) ys = merge_arr xs ys"
  "distinctKeysProps kvs \<Longrightarrow> merge_obj (merge_obj qs kvs) kvs = merge_obj qs kvs"
proof (induction s and ys and kvs arbitrary: d and xs and qs
    rule: distinctKeys_distinctKeysList_distinctKeysProps.induct)
  case (1 xs ps)
  then show ?case by (auto split: option.splits jsval.splits)
next
  case (2 kvs)
  then show ?case by (auto split: option.splits jsval.splits)
next
  case (8 y ys)
  then show ?case by (cases xs) simp_all
next
  case (10 k v kvs)
  let ?w = "merge_val (map_of qs k) v"
  let ?D = "merge_obj (assignValue k ?w qs) kvs"
  from 10 have fresh: "k \<notin> fst ` set kvs" and dv: "distinctKeys v" and dk: "distinctKeysProps kvs"
    by auto
  have "map_of ?D k = Some ?w"
    using fresh by (simp add: map_of_merge_obj_other map_of_assignValue)
  moreover have "merge_val (Some ?w) v = ?w"
    using "10.IH" (1) dv by simp
  ultimately have "assignValue k (merge_val (map_of ?D k) v) ?D = ?D"
    by (simp add: assignValue_same)
  moreover have "merge_obj ?D kvs = ?D"
    using "10.IH" (2) dk by simp
  ultimately show ?case by simp
qed simp_all


lemma merge_obj_appends:
  "distinct (map fst (acc @ kvs)) \<Longrightarrow> \<forall>e \<in> set kvs. merge_val None (snd e) = snd e \<Longrightarrow>
   merge_obj acc kvs = acc @ kvs"
proof (induction kvs arbitrary: acc)
  case Nil
  then show ?case by simp
next
  case (Cons e kvs)
  obtain k v where e: "e = (k, v)" by (cases e)
  from Cons.prems e have fresh: "k \<notin> fst ` set acc" and v: "merge_val None v = v"
    by auto
  then have "map_of acc k = None" by (simp add: map_of_eq_None_iff)
  with fresh v have "merge_obj acc (e # kvs) = merge_obj (acc @ [(k, v)]) kvs"
    by (simp add: e assignValue_fresh)
  also have "\<dots> = (acc @ [(k, v)]) @ kvs"
    using Cons.prems e by (intro Cons.IH) auto
  finally show ?case by (simp add: e)
qed

lemma merge_copies:
  "distinctKeys v \<Longrightarrow> merge_val None v = v"
  "distinctKeysList xs \<Longrightarrow> merge_arr [] xs = xs"
  "distinctKeysProps kvs \<Longrightarrow> \<forall>e \<in> set kvs. merge_val None (snd e) = snd e"
proof (induction v and xs and kvs rule: distinctKeys_distinctKeysList_distinctKeysProps.induct)
  case (1 xs ps)
  then show ?case by (simp add: merge_obj_appends distinctKeysProps_distinct)
next
  case (2 kvs)
  then show ?case by (simp add: merge_obj_appends distinctKeysProps_distinct)
qed simp_all

lemma lodash_merge_copy: "distinctKeysProps svc \<Longrightarrow> lodash_merge [] (JObj svc) = svc"
  using merge_copies(1) [of "JObj svc"] by (simp add: lodash_merge_def)

lemma merge_val_mapping:
  "\<exists>qs xs. merge_val d (JObj kvs) = JObj (merge_obj qs kvs)
         \<or> merge_val d (JObj kvs) = JArr xs (merge_obj qs kvs)"
  by (auto split: option.splits jsval.splits)

lemma merge_val_sequence:
  "\<exists>xs qs. merge_val d (JArr ys ps) = JArr (merge_arr xs ys) (merge_obj qs ps)"
  by (auto split: option.splits jsval.splits)

lemma valueAt_merge_val:
  "distinctKeys s \<Longrightarrow> valueAt s path = Some v \<Longrightarrow> isScalar v \<Longrightarrow>
   valueAt (merge_val d s) path = Some v"
proof (induction path arbitrary: s d)
  case Nil
  then show ?case by (cases v) simp_all
next
  case (Cons st path)
  show ?case
  proof (cases s)
    case (JArr ys ps)
    obtain xs qs where m: "merge_val d s = JArr (merge_arr xs ys) (merge_obj qs ps)"
      using merge_val_sequence [of d ys ps] JArr by auto
    show ?thesis
    proof (cases st)
      case (Key k)
      with Cons.prems JArr obtain v' where v': "map_of ps k = Some v'" "valueAt v' path = Some v"
        by (auto split: option.splits)
      with Cons.prems JArr have "distinctKeys v'"
        by (auto dest: distinctKeysProps_value)
      with v' Cons.prems have "valueAt (merge_val (map_of qs k) v') path = Some v"
        by (intro Cons.IH)
      moreover have "map_of (merge_obj qs ps) k = Some (merge_val (map_of qs k) v')"
        using Cons.prems JArr v' by (simp add: map_of_merge_obj distinctKeysProps_distinct)
      ultimately show ?thesis by (simp add: m Key)
    next
      case (Index i)
      with Cons.prems JArr have i: "i < length ys" "valueAt (ys ! i) path = Some v"
        by (auto split: if_splits)
      with Cons.prems JArr have "distinctKeys (ys ! i)"
        by (auto dest: distinctKeysList_nth)
      with i Cons.prems
      have "valueAt (merge_val (if i < length xs then Some (xs ! i) else None) (ys ! i)) path = Some v"
        by (intro Cons.IH)
      with i show ?thesis by (simp add: m Index length_merge_arr nth_merge_arr)
    qed
  next
    case (JObj kvs)
    obtain qs xs where m: "merge_val d s = JObj (merge_obj qs kvs)
         \<or> merge_val d s = JArr xs (merge_obj qs kvs)"
      using merge_val_mapping [of d kvs] JObj by auto
    show ?thesis
    proof (cases st)
      case (Key k)
      with Cons.prems JObj obtain v' where v': "map_of kvs k = Some v'" "valueAt v' path = Some v"
        by (auto split: option.splits)
      with Cons.prems JObj have "distinctKeys v'"
        by (auto dest: distinctKeysProps_value)
      with v' Cons.prems have "valueAt (merge_val (map_of qs k) v') path = Some v"
        by (intro Cons.IH)
      moreover have "map_of (merge_obj qs kvs) k = Some (merge_val (map_of qs k) v')"
        using Cons.prems JObj v' by (simp add: map_of_merge_obj distinctKeysProps_distinct)
      ultimately show ?thesis using m by (auto simp: Key)
    next
      case (Index i)
      with Cons.prems JObj show ?thesis by simp
    qed
  qed (use Cons.prems in simp_all)
qed

lemma valueAt_lodash_merge:
  "distinctKeysProps src \<Longrightarrow> valueAt (JObj src) path = Some v \<Longrightarrow> isScalar v \<Longrightarrow>
   valueAt (JObj (lodash_merge dst (JObj src))) path = Some v"
  using valueAt_merge_val [of "JObj src" path v "Some (JObj dst)"]
  by (simp add: lodash_merge_def)

section \<open>The merge into the service\<close>

text \<open>
  Once the parent document is located and loaded, the operation is the merge phase:
  what is proved of \<open>mergeIntoService\<close> below holds of the service the operation leaves.
\<close>

lemma mergeParentConfigurationIntoService_merges:
  "getParentConfigurationRelativePath env svc = Some (Inr file, visited) \<Longrightarrow>
   readFileSync env file = Some parentConfiguration \<Longrightarrow>
   mergeParentConfigurationIntoService env svc =
     Some \<lparr>failure = fst (mergeIntoService svc parentConfiguration),
           service = snd (mergeIntoService svc parentConfiguration),
           probed = visited\<rparr>"
  by (simp add: mergeParentConfigurationIntoService_def split: prod.splits)

lemma lodash_merge_twice:
  "distinctKeysProps (source_entries parent) \<Longrightarrow>
   lodash_merge (lodash_merge svc parent) parent = lodash_merge svc parent"
  by (simp add: lodash_merge_def merge_idempotent(3))

text \<open>
  Claim C10. Merging the same parent document (its keys distinct at every level, as
  those of JavaScript objects are) into the service a second time changes nothing: the
  result is that of the single merge of the parent over the child. So when the flag read
  in between is \<open>true\<close>, the effective document is that single merge.
\<close>

theorem second_parent_merge_is_noop:
  assumes "distinctKeysProps (source_entries parent)"
  shows "lodash_merge (lodash_merge svc parent) parent = lodash_merge svc parent
       \<and> (readOverwriteFlag (lodash_merge svc parent) = Inr True \<longrightarrow>
            mergeIntoService svc parent = (None, lodash_merge svc parent))"
  using assms by (simp add: mergeIntoService_def Let_def lodash_merge_twice)

theorem second_parent_merge_is_noop_witness:
  "distinctKeysProps (source_entries (JObj prodParentOverwriting))
   \<and> lodash_merge (lodash_merge devService (JObj prodParentOverwriting)) (JObj prodParentOverwriting)
       = lodash_merge devService (JObj prodParentOverwriting)
   \<and> readOverwriteFlag (lodash_merge devService (JObj prodParentOverwriting)) = Inr True
   \<and> mergeIntoService devService (JObj prodParentOverwriting)
       = (None, lodash_merge devService (JObj prodParentOverwriting))"
proof -
  have d: "distinctKeysProps (source_entries (JObj prodParentOverwriting))"
    by (simp add: prodParentOverwriting_def)
  have f: "readOverwriteFlag (lodash_merge devService (JObj prodParentOverwriting)) = Inr True"
    by (simp add: readOverwriteFlag_def lodash_merge_def devService_def prodParentOverwriting_def)
  from second_parent_merge_is_noop [OF d, of devService] d f show ?thesis
    by simp
qed


lemma readOverwriteFlag_valueAt:
  "valueAt (JObj svc) [Key ''custom'', Key ''parent'', Key ''overwriteServiceConfig''] = Some (JBool b)
   \<Longrightarrow> readOverwriteFlag svc = Inr b"
proof -
  assume a: "valueAt (JObj svc) [Key ''custom'', Key ''parent'', Key ''overwriteServiceConfig'']
      = Some (JBool b)"
  then obtain c where c: "map_of svc ''custom'' = Some c"
    "valueAt c [Key ''parent'', Key ''overwriteServiceConfig''] = Some (JBool b)"
    by (auto split: option.splits)
  then obtain p where p: "get_prop c ''parent'' = Some p" "c \<noteq> JNull"
    "valueAt p [Key ''overwriteServiceConfig''] = Some (JBool b)"
    by (cases c) (auto split: option.splits)
  then have "get_prop p ''overwriteServiceConfig'' = Some (JBool b)" "p \<noteq> JNull"
    by (cases p; auto split: option.splits)+
  with c p show ?thesis
    by (cases c; cases p) (auto simp: readOverwriteFlag_def)
qed

lemma readOverwriteFlag_cong:
  "map_of svc ''custom'' = map_of svc' ''custom'' \<Longrightarrow> readOverwriteFlag svc = readOverwriteFlag svc'"
  by (simp add: readOverwriteFlag_def)

lemma mergeIntoService_by_flag:
  "distinctKeysProps pk \<Longrightarrow> readOverwriteFlag (lodash_merge child (JObj pk)) = Inr b \<Longrightarrow>
   mergeIntoService child (JObj pk) =
     (None, if b then lodash_merge child (JObj pk)
            else lodash_merge (lodash_merge child (JObj pk)) (JObj (lodash_merge [] (JObj child))))"
  by (simp add: mergeIntoService_def Let_def lodash_merge_twice)

lemma get_prop_propsOf: "get_prop v name = map_of (propsOf (Some v)) name"
  by (cases v) simp_all

lemma merge_val_mapping_props:
  "(merge_val d (JObj kvs) = JObj (merge_obj (propsOf d) kvs)
    \<or> (\<exists>xs. merge_val d (JObj kvs) = JArr xs (merge_obj (propsOf d) kvs)))"
  by (auto split: option.splits jsval.splits)

lemma get_prop_merged_absent:
  "name \<notin> fst ` set kvs \<Longrightarrow>
   get_prop (merge_val d (JObj kvs)) name = map_of (propsOf d) name"
  using merge_val_mapping_props [of d kvs] by (auto simp: map_of_merge_obj_other)

lemma get_prop_merged_present:
  "distinct (map fst kvs) \<Longrightarrow> map_of kvs name = Some v \<Longrightarrow>
   get_prop (merge_val d (JObj kvs)) name = Some (merge_val (map_of (propsOf d) name) v)"
  using merge_val_mapping_props [of d kvs] by (auto simp: map_of_merge_obj)

lemma merge_val_mapping_not_null: "merge_val d (JObj kvs) \<noteq> JNull"
  using merge_val_mapping_props [of d kvs] by auto

text \<open>The flag as lines 111 to 118 read it, from the value under \<open>custom\<close>.\<close>

lemma readOverwriteFlag_props:
  "c \<noteq> JNull \<Longrightarrow> map_of svc ''custom'' = Some c \<Longrightarrow>
   readOverwriteFlag svc =
     (case map_of (propsOf (Some c)) ''parent'' of
        None \<Rightarrow> Inr True
      | Some p \<Rightarrow> if p = JNull then Inl TypeError
                  else Inr (map_of (propsOf (Some p)) ''overwriteServiceConfig'' \<noteq> Some (JBool False)))"
  by (cases c) (auto simp: readOverwriteFlag_def get_prop_propsOf split: option.splits jsval.splits)

lemma child_flag_kept:
  assumes "distinctKeysProps pk" and "parentHoldsNoFlag pk" and "readOverwriteFlag child = Inr b"
  shows "readOverwriteFlag (lodash_merge child (JObj pk)) = Inr b"
proof (cases "map_of pk ''custom''")
  case None
  then have "map_of (lodash_merge child (JObj pk)) ''custom'' = map_of child ''custom''"
    by (simp add: lodash_merge_def map_of_merge_obj_other map_of_eq_None_iff)
  then have "readOverwriteFlag (lodash_merge child (JObj pk)) = readOverwriteFlag child"
    by (rule readOverwriteFlag_cong)
  with assms(3) show ?thesis by simp
next
  case (Some pcv)
  with assms(2) obtain pc where pc: "pcv = JObj pc"
    by (cases pcv) (auto simp: parentHoldsNoFlag_def)
  let ?c = "map_of child ''custom''"
  let ?M = "merge_val ?c (JObj pc)"
  have dpc: "distinctKeysProps pc"
    using assms(1) Some pc distinctKeysProps_value [of pk "''custom''" "JObj pc"] by simp
  have m: "map_of (lodash_merge child (JObj pk)) ''custom'' = Some ?M"
    using assms(1) Some pc by (simp add: lodash_merge_def map_of_merge_obj distinctKeysProps_distinct)
  have mflag: "readOverwriteFlag (lodash_merge child (JObj pk)) =
     (case map_of (propsOf (Some ?M)) ''parent'' of
        None \<Rightarrow> Inr True
      | Some p \<Rightarrow> if p = JNull then Inl TypeError
                  else Inr (map_of (propsOf (Some p)) ''overwriteServiceConfig'' \<noteq> Some (JBool False)))"
    by (rule readOverwriteFlag_props [OF merge_val_mapping_not_null m])
  have cnull: "?c \<noteq> Some JNull"
    using assms(3) by (auto simp: readOverwriteFlag_def)
  have cflag: "(case ?c of None \<Rightarrow> Inr True | Some c \<Rightarrow>
     (case map_of (propsOf (Some c)) ''parent'' of
        None \<Rightarrow> Inr True
      | Some p \<Rightarrow> if p = JNull then Inl TypeError
                  else Inr (map_of (propsOf (Some p)) ''overwriteServiceConfig'' \<noteq> Some (JBool False))))
     = Inr b"
  proof (cases ?c)
    case None
    with assms(3) show ?thesis by (simp add: readOverwriteFlag_def)
  next
    case (Some c)
    with cnull have "c \<noteq> JNull" by simp
    from readOverwriteFlag_props [OF this Some] assms(3) Some show ?thesis by simp
  qed
  have cp: "map_of (propsOf ?c) ''parent'' =
      (case ?c of None \<Rightarrow> None | Some c \<Rightarrow> map_of (propsOf (Some c)) ''parent'')"
    by (cases ?c) simp_all
  show ?thesis
  proof (cases "map_of pc ''parent''")
    case None
    then have "map_of (propsOf (Some ?M)) ''parent'' = map_of (propsOf ?c) ''parent''"
      using get_prop_merged_absent [of "''parent''" pc ?c]
      by (simp add: get_prop_propsOf map_of_eq_None_iff del: merge_val.simps)
    with mflag cflag cp show ?thesis by (cases ?c) (simp_all del: merge_val.simps)
  next
    case (Some ppv)
    with assms(2) \<open>map_of pk ''custom'' = Some pcv\<close> pc obtain pp where
      pp: "ppv = JObj pp" "map_of pp ''overwriteServiceConfig'' = None"
      by (cases ppv) (auto simp: parentHoldsNoFlag_def)
    let ?p = "map_of (propsOf ?c) ''parent''"
    let ?P = "merge_val ?p (JObj pp)"
    have "map_of (propsOf (Some ?M)) ''parent'' = Some ?P"
      using get_prop_merged_present [of pc "''parent''" "JObj pp" ?c] dpc Some pp
      by (simp add: get_prop_propsOf distinctKeysProps_distinct del: merge_val.simps)
    moreover have "map_of (propsOf (Some ?P)) ''overwriteServiceConfig''
        = map_of (propsOf ?p) ''overwriteServiceConfig''"
      using get_prop_merged_absent [of "''overwriteServiceConfig''" pp ?p] pp
      by (simp add: get_prop_propsOf map_of_eq_None_iff del: merge_val.simps)
    ultimately have mf: "readOverwriteFlag (lodash_merge child (JObj pk)) =
        Inr (map_of (propsOf ?p) ''overwriteServiceConfig'' \<noteq> Some (JBool False))"
      using mflag by (simp add: merge_val_mapping_not_null del: merge_val.simps)
    show ?thesis
    proof (cases ?c)
      case None
      with mf cflag show ?thesis by simp
    next
      case c: (Some c)
      show ?thesis
      proof (cases "map_of (propsOf (Some c)) ''parent''")
        case None
        with mf cflag c show ?thesis by simp
      next
        case (Some p)
        with mf cflag c show ?thesis by (cases "p = JNull") simp_all
      qed
    qed
  qed
qed


lemma parent_flag_decides:
  assumes "distinctKeysProps pk"
    and "valueAt (JObj pk) [Key ''custom'', Key ''parent'', Key ''overwriteServiceConfig'']
           = Some (JBool b)"
  shows "readOverwriteFlag (lodash_merge child (JObj pk)) = Inr b"
proof -
  from assms have "valueAt (JObj (lodash_merge child (JObj pk)))
      [Key ''custom'', Key ''parent'', Key ''overwriteServiceConfig''] = Some (JBool b)"
    by (intro valueAt_lodash_merge) simp_all
  then show ?thesis by (rule readOverwriteFlag_valueAt)
qed

text \<open>Where the read of the flag throws, the service is left with the first merge.\<close>

lemma mergeIntoService_flag_error:
  "readOverwriteFlag (lodash_merge child parent) = Inl e \<Longrightarrow>
   mergeIntoService child parent = (Some e, lodash_merge child parent)"
  by (simp add: mergeIntoService_def Let_def)

text \<open>
  Claim C1, amended. For every child and every parent document, the direction is decided
  by \<open>custom.parent.overwriteServiceConfig\<close> of the service as it is after the parent has
  been merged over it: read as \<open>true\<close>, the result is the parent merged over the child;
  read as \<open>false\<close>, the saved child merged over that. So a boolean that the parent
  document holds there decides, whatever the child holds, and the child's own flag
  decides when the parent document holds nothing there.
\<close>

theorem overwrite_flag_read_after_first_merge:
  assumes "distinctKeysProps pk"
  shows "(\<forall>b. readOverwriteFlag (lodash_merge child (JObj pk)) = Inr b \<longrightarrow>
            mergeIntoService child (JObj pk) =
              (None, if b then lodash_merge child (JObj pk)
                     else lodash_merge (lodash_merge child (JObj pk))
                            (JObj (lodash_merge [] (JObj child)))))
       \<and> (\<forall>b. valueAt (JObj pk) [Key ''custom'', Key ''parent'', Key ''overwriteServiceConfig'']
                 = Some (JBool b) \<longrightarrow>
            readOverwriteFlag (lodash_merge child (JObj pk)) = Inr b)
       \<and> (\<forall>b. parentHoldsNoFlag pk \<and> readOverwriteFlag child = Inr b \<longrightarrow>
            readOverwriteFlag (lodash_merge child (JObj pk)) = Inr b)"
proof (intro conjI allI impI)
  fix b
  assume "readOverwriteFlag (lodash_merge child (JObj pk)) = Inr b"
  with assms show "mergeIntoService child (JObj pk) =
              (None, if b then lodash_merge child (JObj pk)
                     else lodash_merge (lodash_merge child (JObj pk))
                            (JObj (lodash_merge [] (JObj child))))"
    by (rule mergeIntoService_by_flag)
next
  fix b
  assume "valueAt (JObj pk) [Key ''custom'', Key ''parent'', Key ''overwriteServiceConfig'']
                 = Some (JBool b)"
  with assms show "readOverwriteFlag (lodash_merge child (JObj pk)) = Inr b"
    by (rule parent_flag_decides)
next
  fix b
  assume "parentHoldsNoFlag pk \<and> readOverwriteFlag child = Inr b"
  with assms show "readOverwriteFlag (lodash_merge child (JObj pk)) = Inr b"
    by (intro child_flag_kept) simp_all
qed

theorem overwrite_flag_read_after_first_merge_witness:
  "distinctKeysProps prodParentOverwriting
   \<and> valueAt (JObj prodParentOverwriting)
        [Key ''custom'', Key ''parent'', Key ''overwriteServiceConfig''] = Some (JBool True)
   \<and> readOverwriteFlag (lodash_merge devService (JObj prodParentOverwriting)) = Inr True
   \<and> mergeIntoService devService (JObj prodParentOverwriting)
       = (None, lodash_merge devService (JObj prodParentOverwriting))
   \<and> distinctKeysProps prodParentWithCustom
   \<and> parentHoldsNoFlag prodParentWithCustom \<and> readOverwriteFlag devService = Inr False
   \<and> readOverwriteFlag (lodash_merge devService (JObj prodParentWithCustom)) = Inr False
   \<and> mergeIntoService devService (JObj prodParentWithCustom)
       = (None, lodash_merge (lodash_merge devService (JObj prodParentWithCustom))
                  (JObj (lodash_merge [] (JObj devService))))"
proof -
  have d1: "distinctKeysProps prodParentOverwriting"
    by (simp add: prodParentOverwriting_def)
  have v1: "valueAt (JObj prodParentOverwriting)
        [Key ''custom'', Key ''parent'', Key ''overwriteServiceConfig''] = Some (JBool True)"
    by (simp add: prodParentOverwriting_def)
  have d2: "distinctKeysProps prodParentWithCustom"
    by (simp add: prodParentWithCustom_def)
  have v2: "parentHoldsNoFlag prodParentWithCustom \<and> readOverwriteFlag devService = Inr False"
    by (simp add: prodParentWithCustom_def parentHoldsNoFlag_def readOverwriteFlag_def
        devService_def)
  note t1 = overwrite_flag_read_after_first_merge [OF d1, of devService]
  note t2 = overwrite_flag_read_after_first_merge [OF d2, of devService]
  have f1: "readOverwriteFlag (lodash_merge devService (JObj prodParentOverwriting)) = Inr True"
    by (rule t1 [THEN conjunct2, THEN conjunct1, rule_format, OF v1])
  have m1: "mergeIntoService devService (JObj prodParentOverwriting)
       = (None, lodash_merge devService (JObj prodParentOverwriting))"
    using t1 [THEN conjunct1, rule_format, OF f1] by simp
  have f2: "readOverwriteFlag (lodash_merge devService (JObj prodParentWithCustom)) = Inr False"
    by (rule t2 [THEN conjunct2, THEN conjunct2, rule_format, OF v2])
  have m2: "mergeIntoService devService (JObj prodParentWithCustom)
       = (None, lodash_merge (lodash_merge devService (JObj prodParentWithCustom))
                  (JObj (lodash_merge [] (JObj devService))))"
    using t2 [THEN conjunct1, rule_format, OF f2] by simp
  from d1 v1 f1 m1 d2 v2 f2 m2 show ?thesis by (intro conjI) simp_all
qed

text \<open>
  Claim C1 as stated fails: one and the same child, whose own flag is \<open>false\<close>, keeps its
  stage against a parent without the flag and loses it to the same parent once that
  parent sets the flag to \<open>true\<close>.
\<close>

theorem parent_flag_changes_direction_counterexample:
  "valueAt (JObj devService) [Key ''custom'', Key ''parent'', Key ''overwriteServiceConfig'']
     = Some (JBool False)
   \<and> valueAt (JObj (snd (mergeIntoService devService (JObj prodParent))))
        [Key ''provider'', Key ''stage''] = Some (JStr ''dev'')
   \<and> valueAt (JObj (snd (mergeIntoService devService (JObj prodParentOverwriting))))
        [Key ''provider'', Key ''stage''] = Some (JStr ''prod'')"
  by (simp add: mergeIntoService_def Let_def lodash_merge_def readOverwriteFlag_def
      devService_def prodParent_def prodParentOverwriting_def)


lemma merge_val_scalar: "isScalar s \<Longrightarrow> merge_val d s = s"
  by (cases s) simp_all

lemma merge_arr_scalars:
  "list_all isScalar ys \<Longrightarrow> merge_arr xs ys = ys @ drop (length ys) xs"
proof (induction ys arbitrary: xs)
  case Nil
  then show ?case by simp
next
  case (Cons y ys)
  then show ?case by (cases xs) (simp_all add: merge_val_scalar)
qed

lemma map_of_lodash_merge:
  "distinctKeysProps src \<Longrightarrow> map_of src k = Some v \<Longrightarrow>
   map_of (lodash_merge dst (JObj src)) k = Some (merge_val (map_of dst k) v)"
  by (simp add: lodash_merge_def map_of_merge_obj distinctKeysProps_distinct)

lemma plainSequencesProps_value:
  "plainSequencesProps kvs \<Longrightarrow> map_of kvs k = Some v \<Longrightarrow> plainSequences v"
  by (induction kvs) (auto split: if_splits)

lemma plainSequencesList_nth:
  "plainSequencesList xs \<Longrightarrow> i < length xs \<Longrightarrow> plainSequences (xs ! i)"
  by (induction xs arbitrary: i) (auto simp: nth_Cons split: nat.splits)

lemma valueAt_merge_both:
  "distinctKeys s \<Longrightarrow> plainSequences s \<Longrightarrow> valueAt s path = Some sv \<Longrightarrow>
   valueAt d path = Some dv \<Longrightarrow>
   valueAt (merge_val (Some d) s) path = Some (merge_val (Some dv) sv)"
proof (induction path arbitrary: s d)
  case Nil
  then show ?case by simp
next
  case (Cons st path)
  show ?case
  proof (cases s)
    case (JArr ys ps)
    with Cons.prems have ps: "ps = []" by simp
    show ?thesis
    proof (cases st)
      case (Key k)
      with Cons.prems JArr ps show ?thesis by simp
    next
      case (Index i)
      with Cons.prems JArr have i: "i < length ys" "valueAt (ys ! i) path = Some sv"
        by (auto split: if_splits)
      from Cons.prems(4) Index obtain xs qs where d: "d = JArr xs qs" "i < length xs"
        "valueAt (xs ! i) path = Some dv"
        by (cases d) (auto split: if_splits)
      from Cons.prems JArr i have "distinctKeys (ys ! i)" "plainSequences (ys ! i)"
        by (auto dest: distinctKeysList_nth plainSequencesList_nth)
      with i d have "valueAt (merge_val (Some (xs ! i)) (ys ! i)) path
          = Some (merge_val (Some dv) sv)"
        by (intro Cons.IH)
      with i d show ?thesis
        by (simp add: JArr Index length_merge_arr nth_merge_arr)
    qed
  next
    case (JObj kvs)
    show ?thesis
    proof (cases st)
      case (Key k)
      with Cons.prems JObj obtain v' where v': "map_of kvs k = Some v'" "valueAt v' path = Some sv"
        by (auto split: option.splits)
      with Cons.prems JObj have wf: "distinctKeys v'" "plainSequences v'"
        by (auto dest: distinctKeysProps_value plainSequencesProps_value)
      from Cons.prems(4) Key obtain d' where d': "map_of (propsOf (Some d)) k = Some d'"
        "valueAt d' path = Some dv"
        by (cases d) (auto split: option.splits)
      with wf v' have "valueAt (merge_val (Some d') v') path = Some (merge_val (Some dv) sv)"
        by (intro Cons.IH)
      moreover have "map_of (merge_obj (propsOf (Some d)) kvs) k = Some (merge_val (Some d') v')"
        using Cons.prems JObj v' d' by (simp add: map_of_merge_obj distinctKeysProps_distinct)
      ultimately show ?thesis
        using merge_val_mapping_props [of "Some d" kvs] by (auto simp: JObj Key)
    next
      case (Index i)
      with Cons.prems JObj show ?thesis by simp
    qed
  qed (use Cons.prems in simp_all)
qed

lemma valueAt_lodash_merge_both:
  "distinctKeysProps src \<Longrightarrow> plainSequencesProps src \<Longrightarrow> valueAt (JObj src) path = Some sv \<Longrightarrow>
   valueAt (JObj dst) path = Some dv \<Longrightarrow>
   valueAt (JObj (lodash_merge dst (JObj src))) path = Some (merge_val (Some dv) sv)"
  using valueAt_merge_both [of "JObj src" path sv "JObj dst" dv]
  by (simp add: lodash_merge_def)

text \<open>
  Claim C2, amended. Where child and parent hold sequences under the same key, at any
  depth, the effective document holds there their combination by index, as long as the
  longer of the two: with the parent winning, the parent's sequence merged position by
  position over the child's; with the child winning, the child's sequence merged
  position by position over that. For sequences of scalars that is the winning side's
  elements followed by the losing side's elements at the positions beyond the winning
  sequence's length.
\<close>

theorem sequences_merged_by_index:
  assumes "distinctKeysProps child" and "plainSequencesProps child"
    and "distinctKeysProps pk" and "plainSequencesProps pk"
    and "valueAt (JObj child) path = Some (JArr xs [])"
    and "valueAt (JObj pk) path = Some (JArr ys [])"
    and "readOverwriteFlag (lodash_merge child (JObj pk)) = Inr b"
  shows "\<exists>svc' zs. mergeIntoService child (JObj pk) = (None, svc')
           \<and> valueAt (JObj svc') path = Some (JArr zs [])
           \<and> zs = (if b then merge_arr xs ys else merge_arr (merge_arr xs ys) xs)
           \<and> length zs = max (length xs) (length ys)
           \<and> (list_all isScalar xs \<and> list_all isScalar ys \<longrightarrow>
                zs = (if b then ys @ drop (length ys) xs else xs @ drop (length xs) ys))"
proof -
  let ?merged = "lodash_merge child (JObj pk)"
  let ?zs = "if b then merge_arr xs ys else merge_arr (merge_arr xs ys) xs"
  have run: "mergeIntoService child (JObj pk)
      = (None, if b then ?merged else lodash_merge ?merged (JObj child))"
    using assms(1,3,7) by (simp add: mergeIntoService_by_flag lodash_merge_copy)
  have m: "valueAt (JObj ?merged) path = Some (JArr (merge_arr xs ys) [])"
    using valueAt_lodash_merge_both [OF assms(3,4,6,5)] by simp
  have again: "valueAt (JObj (lodash_merge ?merged (JObj child))) path
      = Some (JArr (merge_arr (merge_arr xs ys) xs) [])"
    using valueAt_lodash_merge_both [OF assms(1,2,5) m] by simp
  have look: "valueAt (JObj (if b then ?merged else lodash_merge ?merged (JObj child))) path
      = Some (JArr ?zs [])"
    using m again by simp
  have len: "length ?zs = max (length xs) (length ys)"
    by (simp add: length_merge_arr)
  have scal: "list_all isScalar xs \<and> list_all isScalar ys \<longrightarrow>
      ?zs = (if b then ys @ drop (length ys) xs else xs @ drop (length xs) ys)"
    by (simp add: merge_arr_scalars)
  from run look len scal show ?thesis
    by (intro exI [of _ "if b then ?merged else lodash_merge ?merged (JObj child)"]
        exI [of _ ?zs] conjI) simp_all
qed


theorem sequences_merged_by_index_witness:
  "distinctKeysProps pluginService \<and> plainSequencesProps pluginService
   \<and> distinctKeysProps pluginParent \<and> plainSequencesProps pluginParent
   \<and> valueAt (JObj pluginService) [Key ''plugins'']
       = Some (JArr [JStr ''a'', JStr ''b'', JStr ''c''] [])
   \<and> valueAt (JObj pluginParent) [Key ''plugins''] = Some (JArr [JStr ''z''] [])
   \<and> readOverwriteFlag (lodash_merge pluginService (JObj pluginParent)) = Inr True
   \<and> (\<exists>svc'. mergeIntoService pluginService (JObj pluginParent) = (None, svc')
         \<and> valueAt (JObj svc') [Key ''plugins'']
             = Some (JArr [JStr ''z'', JStr ''b'', JStr ''c''] []))
   \<and> distinctKeysProps eventsService \<and> plainSequencesProps eventsService
   \<and> distinctKeysProps eventsParent \<and> plainSequencesProps eventsParent
   \<and> valueAt (JObj eventsService) [Key ''functions'', Key ''f'', Key ''events'']
       = Some (JArr [JStr ''http''] [])
   \<and> valueAt (JObj eventsParent) [Key ''functions'', Key ''f'', Key ''events'']
       = Some (JArr [JStr ''sqs'', JStr ''sns'', JStr ''s3''] [])
   \<and> readOverwriteFlag (lodash_merge eventsService (JObj eventsParent)) = Inr False
   \<and> (\<exists>svc'. mergeIntoService eventsService (JObj eventsParent) = (None, svc')
         \<and> valueAt (JObj svc') [Key ''functions'', Key ''f'', Key ''events'']
             = Some (JArr [JStr ''http'', JStr ''sns'', JStr ''s3''] []))"
proof -
  have h: "distinctKeysProps pluginService" "plainSequencesProps pluginService"
    "distinctKeysProps pluginParent" "plainSequencesProps pluginParent"
    "valueAt (JObj pluginService) [Key ''plugins'']
       = Some (JArr [JStr ''a'', JStr ''b'', JStr ''c''] [])"
    "valueAt (JObj pluginParent) [Key ''plugins''] = Some (JArr [JStr ''z''] [])"
    "readOverwriteFlag (lodash_merge pluginService (JObj pluginParent)) = Inr True"
    by (simp_all add: pluginService_def pluginParent_def readOverwriteFlag_def lodash_merge_def)
  have g: "distinctKeysProps eventsService" "plainSequencesProps eventsService"
    "distinctKeysProps eventsParent" "plainSequencesProps eventsParent"
    "valueAt (JObj eventsService) [Key ''functions'', Key ''f'', Key ''events'']
       = Some (JArr [JStr ''http''] [])"
    "valueAt (JObj eventsParent) [Key ''functions'', Key ''f'', Key ''events'']
       = Some (JArr [JStr ''sqs'', JStr ''sns'', JStr ''s3''] [])"
    "readOverwriteFlag (lodash_merge eventsService (JObj eventsParent)) = Inr False"
    by (simp_all add: eventsService_def eventsParent_def readOverwriteFlag_def lodash_merge_def)
  from sequences_merged_by_index [OF h] obtain svc1 zs1 where
    r1: "mergeIntoService pluginService (JObj pluginParent) = (None, svc1)"
    "valueAt (JObj svc1) [Key ''plugins''] = Some (JArr zs1 [])"
    "zs1 = [JStr ''z'', JStr ''b'', JStr ''c'']"
    by auto
  from sequences_merged_by_index [OF g] obtain svc2 zs2 where
    r2: "mergeIntoService eventsService (JObj eventsParent) = (None, svc2)"
    "valueAt (JObj svc2) [Key ''functions'', Key ''f'', Key ''events''] = Some (JArr zs2 [])"
    "zs2 = [JStr ''http'', JStr ''sns'', JStr ''s3'']"
    by auto
  have e1: "\<exists>svc'. mergeIntoService pluginService (JObj pluginParent) = (None, svc')
         \<and> valueAt (JObj svc') [Key ''plugins'']
             = Some (JArr [JStr ''z'', JStr ''b'', JStr ''c''] [])"
    using r1 by (intro exI [of _ svc1]) simp
  have e2: "\<exists>svc'. mergeIntoService eventsService (JObj eventsParent) = (None, svc')
         \<and> valueAt (JObj svc') [Key ''functions'', Key ''f'', Key ''events'']
             = Some (JArr [JStr ''http'', JStr ''sns'', JStr ''s3''] [])"
    using r2 by (intro exI [of _ svc2]) simp
  from h e1 g e2 show ?thesis by (intro conjI)
qed

text \<open>
  Claim C2 as stated fails: the parent wins, its sequence has the one element \<open>z\<close>, and
  the effective sequence still has the child's second and third elements.
\<close>

theorem winning_sequence_not_taken_whole_counterexample:
  "mergeIntoService pluginService (JObj pluginParent)
     = (None, [(''plugins'', JArr [JStr ''z'', JStr ''b'', JStr ''c''] [])])
   \<and> map_of pluginParent ''plugins'' = Some (JArr [JStr ''z''] [])
   \<and> map_of pluginService ''plugins'' = Some (JArr [JStr ''a'', JStr ''b'', JStr ''c''] [])"
  by (simp add: mergeIntoService_def Let_def lodash_merge_def readOverwriteFlag_def
      pluginService_def pluginParent_def)

text \<open>
  Claim C3, amended. When the flag read is \<open>false\<close>, the last merge applies the child
  as it was before the first merge, and every scalar that the child holds, at any depth
  of keys and sequence positions, is in the effective document at the same place.
\<close>

theorem child_scalars_restored:
  assumes "distinctKeysProps child"
    and "readOverwriteFlag (lodash_merge child parent) = Inr False"
    and "valueAt (JObj child) path = Some v" and "isScalar v"
  shows "mergeIntoService child parent =
           (None, lodash_merge (lodash_merge (lodash_merge child parent) parent) (JObj child))
       \<and> valueAt (JObj (snd (mergeIntoService child parent))) path = Some v"
proof -
  have run: "mergeIntoService child parent =
      (None, lodash_merge (lodash_merge (lodash_merge child parent) parent) (JObj child))"
    using assms(1,2) by (simp add: mergeIntoService_def Let_def lodash_merge_copy)
  moreover have "valueAt (JObj (lodash_merge (lodash_merge (lodash_merge child parent) parent)
      (JObj child))) path = Some v"
    using assms(1,3,4) by (rule valueAt_lodash_merge)
  ultimately show ?thesis by simp
qed

theorem child_scalars_restored_witness:
  "distinctKeysProps devService
   \<and> readOverwriteFlag (lodash_merge devService (JObj prodParent)) = Inr False
   \<and> valueAt (JObj devService) [Key ''provider'', Key ''stage''] = Some (JStr ''dev'')
   \<and> isScalar (JStr ''dev'')
   \<and> snd (mergeIntoService devService (JObj prodParent)) =
        [(''provider'', JObj [(''stage'', JStr ''dev''), (''region'', JStr ''us-east-1'')]),
         (''custom'', JObj [(''parent'', JObj [(''overwriteServiceConfig'', JBool False)])])]
   \<and> valueAt (JObj (snd (mergeIntoService devService (JObj prodParent))))
        [Key ''provider'', Key ''stage''] = Some (JStr ''dev'')"
proof -
  have h: "distinctKeysProps devService"
    "readOverwriteFlag (lodash_merge devService (JObj prodParent)) = Inr False"
    "valueAt (JObj devService) [Key ''provider'', Key ''stage''] = Some (JStr ''dev'')"
    "isScalar (JStr ''dev'')"
    by (simp_all add: devService_def prodParent_def readOverwriteFlag_def lodash_merge_def)
  have e: "snd (mergeIntoService devService (JObj prodParent)) =
        [(''provider'', JObj [(''stage'', JStr ''dev''), (''region'', JStr ''us-east-1'')]),
         (''custom'', JObj [(''parent'', JObj [(''overwriteServiceConfig'', JBool False)])])]"
    by (simp add: mergeIntoService_def Let_def lodash_merge_def readOverwriteFlag_def
        devService_def prodParent_def)
  from child_scalars_restored [OF h] h e show ?thesis
    by (intro conjI) simp_all
qed

text \<open>
  Claim C3 as stated fails for a key that holds a sequence: the child's \<open>stages\<close> has
  one element, and the effective one keeps the parent's second and third elements.
\<close>

theorem child_sequence_not_restored_counterexample:
  "valueAt (JObj listService) [Key ''custom'', Key ''parent'', Key ''overwriteServiceConfig'']
     = Some (JBool False)
   \<and> valueAt (JObj listService) [Key ''stages''] = Some (JArr [JStr ''dev''] [])
   \<and> valueAt (JObj (snd (mergeIntoService listService (JObj listParent)))) [Key ''stages'']
       = Some (JArr [JStr ''dev'', JStr ''staging'', JStr ''prod''] [])"
  by (simp add: mergeIntoService_def Let_def lodash_merge_def readOverwriteFlag_def
      listService_def listParent_def)

end
